theory Spec2Isabelle
  imports Main "HOL-Library.Sublist"
begin

section \<open>Strings of the Go program\<close>

text \<open>
  The program works on Go strings that hold UTF-8 text. Its regular expressions,
  \<open>strings.Trim\<close> and \<open>utf8.RuneCountInString\<close> work rune by rune, and on valid UTF-8 a
  byte-wise substring search for a valid UTF-8 pattern finds exactly the rune-aligned
  occurrences. A string is therefore modelled as its list of Unicode code points; input
  that is not valid UTF-8 is outside the model. Characters outside ASCII are written by
  their code point in hexadecimal.
\<close>

type_synonym rune = nat
type_synonym gostring = "rune list"

definition asc :: "string \<Rightarrow> gostring" where
  \<comment> \<open>an ASCII literal of the source\<close>
  "asc s = map of_char s"

subsection \<open>Package strings\<close>

text \<open>
  \<open>strings.Replace(s, old, new, -1)\<close> and \<open>strings.ReplaceAll\<close>: every non-overlapping
  occurrence of \<open>old\<close>, found from left to right, is replaced. With an empty \<open>old\<close> Go
  inserts \<open>new\<close> before every rune and at the end.
\<close>

function repl :: "gostring \<Rightarrow> gostring \<Rightarrow> gostring \<Rightarrow> gostring" where
  "repl [] old new = []"
| "repl (c # s) old new =
     (if old \<noteq> [] \<and> prefix old (c # s)
      then new @ repl (drop (length old) (c # s)) old new
      else c # repl s old new)"
  by pat_completeness auto
termination
  by (relation "measure (\<lambda>(s, old, new). length s)") (auto simp: neq_Nil_conv)

definition strings_Replace :: "gostring \<Rightarrow> gostring \<Rightarrow> gostring \<Rightarrow> gostring" where
  "strings_Replace s old new =
     (if old = new then s
      else if old = [] then new @ concat (map (\<lambda>c. c # new) s)
      else repl s old new)"

text \<open>
  \<open>strings.Split(s, sep)\<close>: the pieces between the non-overlapping occurrences of
  \<open>sep\<close>, found from left to right; one piece more than there are such occurrences.
  An empty \<open>sep\<close> splits after every rune.
\<close>

function splt :: "gostring \<Rightarrow> gostring \<Rightarrow> gostring list" where
  "splt [] sep = [[]]"
| "splt (c # s) sep =
     (if sep \<noteq> [] \<and> prefix sep (c # s)
      then [] # splt (drop (length sep) (c # s)) sep
      else (case splt s sep of [] \<Rightarrow> [[c]] | h # t \<Rightarrow> (c # h) # t))"
  by pat_completeness auto
termination
  by (relation "measure (\<lambda>(s, sep). length s)") (auto simp: neq_Nil_conv)

definition strings_Split :: "gostring \<Rightarrow> gostring \<Rightarrow> gostring list" where
  "strings_Split s sep = (if sep = [] then map (\<lambda>c. [c]) s else splt s sep)"

text \<open>
  \<open>strings.Count(s, sep)\<close>, the number of non-overlapping occurrences; \<open>strings.Split\<close>
  sizes its result with it.
\<close>

function cnt :: "gostring \<Rightarrow> gostring \<Rightarrow> nat" where
  "cnt [] sep = 0"
| "cnt (c # s) sep =
     (if sep \<noteq> [] \<and> prefix sep (c # s)
      then Suc (cnt (drop (length sep) (c # s)) sep)
      else cnt s sep)"
  by pat_completeness auto
termination
  by (relation "measure (\<lambda>(s, sep). length s)") (auto simp: neq_Nil_conv)

definition strings_Count :: "gostring \<Rightarrow> gostring \<Rightarrow> nat" where
  "strings_Count s sep = (if sep = [] then length s + 1 else cnt s sep)"

text \<open>
  The positions at which \<open>sub\<close> occurs in \<open>s\<close>, overlapping or not. No function of the
  program computes them; they serve to say where the delimiter lines of a document are.
\<close>

fun occurrences_from :: "nat \<Rightarrow> gostring \<Rightarrow> gostring \<Rightarrow> nat list" where
  "occurrences_from i [] sub = (if sub = [] then [i] else [])"
| "occurrences_from i (c # s) sub =
     (if prefix sub (c # s) then i # occurrences_from (i + 1) s sub
      else occurrences_from (i + 1) s sub)"

definition occurrences :: "gostring \<Rightarrow> gostring \<Rightarrow> nat list" where
  "occurrences s sub = occurrences_from 0 s sub"

fun strings_Join :: "gostring list \<Rightarrow> gostring \<Rightarrow> gostring" where
  "strings_Join [] sep = []"
| "strings_Join [x] sep = x"
| "strings_Join (x # y # r) sep = x @ sep @ strings_Join (y # r) sep"

definition strings_Repeat :: "gostring \<Rightarrow> nat \<Rightarrow> gostring" where
  "strings_Repeat s n = concat (replicate n s)"

definition strings_Trim :: "gostring \<Rightarrow> gostring \<Rightarrow> gostring" where
  \<comment> \<open>leading and trailing runes that belong to the cutset are removed\<close>
  "strings_Trim s cutset =
     rev (dropWhile (\<lambda>c. c \<in> set cutset) (rev (dropWhile (\<lambda>c. c \<in> set cutset) s)))"

fun strings_Contains :: "gostring \<Rightarrow> gostring \<Rightarrow> bool" where
  "strings_Contains [] sub = (sub = [])"
| "strings_Contains (c # s) sub = (prefix sub (c # s) \<or> strings_Contains s sub)"

subsection \<open>fmt.Sprintf\<close>

text \<open>
  \<open>fmt.Sprintf\<close> with string operands, for formats whose only verbs are \<open>%s\<close> and
  \<open>%%\<close> (predicate \<open>fmt_modelled\<close>; every template of the program is one, lemma
  \<open>get_outfmt_modelled\<close>). The fmt package documents what happens when format and
  operands do not fit: a verb without operand prints \<open>%!s(MISSING)\<close>, a format ending in
  a lone percent sign prints \<open>%!(NOVERB)\<close>, and operands that no verb consumed are
  appended as \<open>%!(EXTRA string=a, string=b)\<close>. Code point 0x25 is the percent sign,
  0x73 the letter s.
\<close>

definition extra_args :: "gostring list \<Rightarrow> gostring" where
  "extra_args args =
     (if args = [] then []
      else asc ''%!(EXTRA '' @ strings_Join (map (\<lambda>a. asc ''string='' @ a) args) (asc '', '')
           @ asc '')'')"

fun fmt_Sprintf :: "gostring \<Rightarrow> gostring list \<Rightarrow> gostring" where
  "fmt_Sprintf [] args = extra_args args"
| "fmt_Sprintf [c] args = (if c = 0x25 then asc ''%!(NOVERB)'' else [c]) @ extra_args args"
| "fmt_Sprintf (c # v # f) args =
     (if c \<noteq> 0x25 then c # fmt_Sprintf (v # f) args
      else if v = 0x73 then
        (case args of
           [] \<Rightarrow> asc ''%!s(MISSING)'' @ fmt_Sprintf f []
         | a # as \<Rightarrow> a @ fmt_Sprintf f as)
      else if v = 0x25 then 0x25 # fmt_Sprintf f args
      else c # fmt_Sprintf (v # f) args)"

fun fmt_modelled :: "gostring \<Rightarrow> bool" where
  "fmt_modelled [] = True"
| "fmt_modelled [c] = (c \<noteq> 0x25)"
| "fmt_modelled (c # v # f) =
     (if c \<noteq> 0x25 then fmt_modelled (v # f) else (v = 0x73 \<or> v = 0x25) \<and> fmt_modelled f)"

section \<open>Output formats\<close>

record OutFmt =
  ruby :: gostring
  hdr :: gostring
  shdr :: gostring
  sshdr :: gostring
  pb :: gostring

text \<open>
  \<open>new(OutFmt)\<close> is the descriptor of five empty strings; the switch has no default
  branch, so that is what an unknown name gets. Code point 0x5C is the backslash, 0x27
  the apostrophe, 0x300A and 0x300B the double angle brackets that enclose a reading.
\<close>

definition get_outfmt :: "gostring \<Rightarrow> OutFmt" where
  "get_outfmt fmt =
     (if fmt = asc ''tex'' then
        \<lparr>ruby = [0x5C] @ asc ''ruby{%s}{%s}'',
         hdr = [0x5C] @ asc ''chapter{%s}'',
         shdr = [0x5C] @ asc ''section*{%s}'',
         sshdr = [0x5C] @ asc ''subsection*{%s}'',
         pb = [0x5C] @ asc ''newpage''\<rparr>
      else if fmt = asc ''md'' then
        \<lparr>ruby = asc ''<ruby>%s<rp>'' @ [0x300A] @ asc ''</rp><rt>%s</rt><rp>'' @ [0x300B]
                @ asc ''</rp></ruby>'',
         hdr = asc ''# %s'',
         shdr = asc ''## %s'',
         sshdr = asc ''### %s'',
         pb = asc ''<div style='' @ [0x27] @ asc ''break-after:always'' @ [0x27]
              @ asc ''></div>''\<rparr>
      else if fmt = asc ''plain'' then
        \<lparr>ruby = asc ''[%s:%s]'',
         hdr = asc ''%s'',
         shdr = asc ''%s'',
         sshdr = asc ''%s'',
         pb = []\<rparr>
      else \<lparr>ruby = [], hdr = [], shdr = [], sshdr = [], pb = []\<rparr>)"

section \<open>Regular expressions\<close>

text \<open>
  Go's \<open>regexp\<close> package returns the leftmost match and, among the matches that start
  there, the one a backtracking search finds first. The seven expressions of the program
  are sequences of literals, single character classes, one optional class and greedy
  repetitions of a class, and every capture group encloses consecutive items of the
  sequence. An expression is modelled as its list of items together with, for every
  capture group, the index of its first item and the number of its items. The matcher
  tries the alternatives of \<open>?\<close>, \<open>+\<close> and \<open>*\<close> in Go's order (longest first) and
  returns the text consumed by each item.
\<close>

datatype item =
    Lit gostring
  | One "rune \<Rightarrow> bool"
  | Opt "rune \<Rightarrow> bool"
  | Plus "rune \<Rightarrow> bool"
  | Star "rune \<Rightarrow> bool"

type_synonym regex = "item list \<times> (nat \<times> nat) list"

definition push :: "gostring \<Rightarrow> gostring list option \<Rightarrow> gostring list option" where
  "push seg r = map_option (\<lambda>segs. seg # segs) r"

definition grow :: "rune \<Rightarrow> gostring list \<Rightarrow> gostring list" where
  \<comment> \<open>one more rune for the repetition that is the first item\<close>
  "grow x segs = (case segs of [] \<Rightarrow> [[x]] | seg # rest \<Rightarrow> (x # seg) # rest)"

fun mtch :: "item list \<Rightarrow> gostring \<Rightarrow> gostring list option" where
  "mtch [] s = Some []"
| "mtch (Lit l # its) s =
     (if prefix l s then push l (mtch its (drop (length l) s)) else None)"
| "mtch (One p # its) [] = None"
| "mtch (One p # its) (x # xs) = (if p x then push [x] (mtch its xs) else None)"
| "mtch (Opt p # its) [] = push [] (mtch its [])"
| "mtch (Opt p # its) (x # xs) =
     (if p x then
        (case mtch its xs of
           Some segs \<Rightarrow> Some ([x] # segs)
         | None \<Rightarrow> push [] (mtch its (x # xs)))
      else push [] (mtch its (x # xs)))"
| "mtch (Plus p # its) [] = None"
| "mtch (Plus p # its) (x # xs) =
     (if p x then map_option (grow x) (mtch (Star p # its) xs) else None)"
| "mtch (Star p # its) [] = push [] (mtch its [])"
| "mtch (Star p # its) (x # xs) =
     (if p x then
        (case mtch (Star p # its) xs of
           Some segs \<Rightarrow> Some (grow x segs)
         | None \<Rightarrow> push [] (mtch its (x # xs)))
      else push [] (mtch its (x # xs)))"

text \<open>
  What the text consumed by an item must look like. No function of the program computes
  this; it says what a match of an expression is.
\<close>

fun conforms :: "item \<Rightarrow> gostring \<Rightarrow> bool" where
  "conforms (Lit l) seg = (seg = l)"
| "conforms (One p) seg = (length seg = 1 \<and> list_all p seg)"
| "conforms (Opt p) seg = (length seg \<le> 1 \<and> list_all p seg)"
| "conforms (Plus p) seg = (seg \<noteq> [] \<and> list_all p seg)"
| "conforms (Star p) seg = list_all p seg"

text \<open>
  The leftmost match (\<open>FindStringSubmatch\<close>) and the successive non-overlapping matches
  (\<open>FindAllStringSubmatch\<close> with \<open>n = -1\<close>), as item texts. The search for the next match
  starts where the previous match ended. Go treats a match of the empty string specially;
  none of the seven expressions can match the empty string (lemma
  \<open>matches_not_empty\<close>), so that branch is not modelled, and the search just moves
  on by one rune there.
\<close>

fun find_first :: "item list \<Rightarrow> gostring \<Rightarrow> gostring list option" where
  "find_first its [] = None"
| "find_first its (c # s) =
     (case mtch its (c # s) of Some segs \<Rightarrow> Some segs | None \<Rightarrow> find_first its s)"

function find_all :: "item list \<Rightarrow> gostring \<Rightarrow> gostring list list" where
  "find_all its [] = []"
| "find_all its (c # s) =
     (case mtch its (c # s) of
        Some segs \<Rightarrow> segs # find_all its (drop (max 1 (length (concat segs))) (c # s))
      | None \<Rightarrow> find_all its s)"
  by pat_completeness auto
termination
  by (relation "measure (\<lambda>(its, s). length s)") auto

text \<open>
  The slice Go returns for a match: element 0 is the whole match, element \<open>i\<close> the text
  of capture group \<open>i\<close>. A nil result is \<open>None\<close>, respectively the empty list.
\<close>

definition submatches :: "(nat \<times> nat) list \<Rightarrow> gostring list \<Rightarrow> gostring list" where
  "submatches gs segs = concat segs # map (\<lambda>(i, n). concat (take n (drop i segs))) gs"

definition FindStringSubmatch :: "regex \<Rightarrow> gostring \<Rightarrow> gostring list option" where
  "FindStringSubmatch re s = map_option (submatches (snd re)) (find_first (fst re) s)"

definition FindAllStringSubmatch :: "regex \<Rightarrow> gostring \<Rightarrow> gostring list list" where
  "FindAllStringSubmatch re s = map (submatches (snd re)) (find_all (fst re) s)"

section \<open>Lookup tables\<close>

text \<open>
  \<open>main.go\<close> takes both tables from the package \<open>aozora2fmt\<close> (\<open>JisMap\<close>,
  \<open>AccentMap\<close>); the repository holds them as the map literals of \<open>jis_map\<close> and
  \<open>accent_map\<close>. A Go map literal has no duplicate keys. Indexing a map with a key it
  does not hold gives the zero value, the empty string.
\<close>

definition jis_map :: "(int \<times> gostring) list" where
  "jis_map =
  [(311476, [0x5307]),
   (311524, [0x5671]),
   (311589, [0x5AA7]),
   (318428, [0x5F58]),
   (318431, [0x5F7D]),
   (318445, [0x6033]),
   (318454, [0x60DD]),
   (318455, [0x60F8]),
   (318459, [0x6137]),
   (318466, [0x6222]),
   (318477, [0x6318]),
   (318615, [0x6A5B]),
   (318662, [0x6CEB]),
   (318740, [0x70B7]),
   (318764, [0x71C4]),
   (318771, [0x728D]),
   (318822, [0x7486]),
   (318881, [0x7736]),
   (318885, [0x775C]),
   (319155, [0x86FC]),
   (319239, [0x8E70]),
   (319278, [0x9122]),
   (319413, [0x9A03]),
   (319484, [0x9F39]),
   (421283, [0x6215]),
   (428874, [0x8B43]),
   (429267, [0x993C]),
   (429268, [0x9940]),
   (429271, [0x994D]),
   (429337, [0x9B73])]"

definition accent_map :: "(gostring \<times> gostring) list" where
  "accent_map =
  [(asc ''A&'', [0xC5]),
   (asc ''A'' @ [0x27], [0xC1]),
   (asc ''A:'', [0xC4]),
   (asc ''AE&'', [0xC6]),
   (asc ''A^'', [0xC2]),
   (asc ''A_'', [0x100]),
   (asc ''A`'', [0xC0]),
   (asc ''A~'', [0xC3]),
   (asc ''C'' @ [0x27], [0x106]),
   (asc ''C,'', [0xC7]),
   (asc ''C^'', [0x108]),
   (asc ''D/'', [0x110]),
   (asc ''E'' @ [0x27], [0xC9]),
   (asc ''E:'', [0xCB]),
   (asc ''E^'', [0xCA]),
   (asc ''E_'', [0x112]),
   (asc ''E`'', [0xC8]),
   (asc ''E~'', [0x1EBC]),
   (asc ''G^'', [0x11C]),
   (asc ''H^'', [0x124]),
   (asc ''I'' @ [0x27], [0xCD]),
   (asc ''I:'', [0xCF]),
   (asc ''I^'', [0xCE]),
   (asc ''I_'', [0x12A]),
   (asc ''I`'', [0xCC]),
   (asc ''I~'', [0x128]),
   (asc ''J^'', [0x134]),
   (asc ''L'' @ [0x27], [0x139]),
   (asc ''L/'', [0x141]),
   (asc ''M'' @ [0x27], [0x1E3E]),
   (asc ''N'' @ [0x27], [0x143]),
   (asc ''N`'', [0x1F8]),
   (asc ''N~'', [0xD1]),
   (asc ''O'' @ [0x27], [0xD3]),
   (asc ''O/'', [0xD8]),
   (asc ''O:'', [0xD6]),
   (asc ''OE&'', [0x152]),
   (asc ''O^'', [0xD4]),
   (asc ''O_'', [0x14C]),
   (asc ''O`'', [0xD2]),
   (asc ''O~'', [0xD5]),
   (asc ''R'' @ [0x27], [0x154]),
   (asc ''S'' @ [0x27], [0x15A]),
   (asc ''S,'', [0x15E]),
   (asc ''S^'', [0x15C]),
   (asc ''T,'', [0x162]),
   (asc ''U&'', [0x16E]),
   (asc ''U'' @ [0x27], [0xDA]),
   (asc ''U:'', [0xDC]),
   (asc ''U^'', [0xDB]),
   (asc ''U_'', [0x16A]),
   (asc ''U`'', [0xD9]),
   (asc ''U~'', [0x168]),
   (asc ''Y'' @ [0x27], [0xDD]),
   (asc ''Z'' @ [0x27], [0x179]),
   (asc ''a&'', [0xE5]),
   (asc ''a'' @ [0x27], [0xE1]),
   (asc ''a:'', [0xE4]),
   (asc ''a^'', [0xE2]),
   (asc ''a_'', [0x101]),
   (asc ''a`'', [0xE0]),
   (asc ''ae&'', [0xE6]),
   (asc ''a~'', [0xE3]),
   (asc ''c'' @ [0x27], [0x107]),
   (asc ''c,'', [0xE7]),
   (asc ''c^'', [0x109]),
   (asc ''d/'', [0x111]),
   (asc ''e'' @ [0x27], [0xE9]),
   (asc ''e:'', [0xEB]),
   (asc ''e^'', [0xEA]),
   (asc ''e_'', [0x113]),
   (asc ''e`'', [0xE8]),
   (asc ''e~'', [0x1EBD]),
   (asc ''g^'', [0x11D]),
   (asc ''h/'', [0x127]),
   (asc ''h^'', [0x125]),
   (asc ''i'' @ [0x27], [0xED]),
   (asc ''i/'', [0x268]),
   (asc ''i:'', [0xEF]),
   (asc ''i^'', [0xEE]),
   (asc ''i_'', [0x12B]),
   (asc ''i`'', [0xEC]),
   (asc ''i~'', [0x129]),
   (asc ''j^'', [0x135]),
   (asc ''l'' @ [0x27], [0x13A]),
   (asc ''l/'', [0x142]),
   (asc ''m'' @ [0x27], [0x1E3F]),
   (asc ''n'' @ [0x27], [0x144]),
   (asc ''n`'', [0x1F9]),
   (asc ''n~'', [0xF1]),
   (asc ''o'' @ [0x27], [0xF3]),
   (asc ''o/'', [0xF8]),
   (asc ''o:'', [0xF6]),
   (asc ''o^'', [0xF4]),
   (asc ''o_'', [0x14D]),
   (asc ''o`'', [0xF2]),
   (asc ''oe&'', [0x153]),
   (asc ''o~'', [0xF5]),
   (asc ''r'' @ [0x27], [0x155]),
   (asc ''s&'', [0xDF]),
   (asc ''s'' @ [0x27], [0x15B]),
   (asc ''s,'', [0x15F]),
   (asc ''s^'', [0x15D]),
   (asc ''t,'', [0x163]),
   (asc ''u&'', [0x16F]),
   (asc ''u'' @ [0x27], [0xFA]),
   (asc ''u:'', [0xFC]),
   (asc ''u^'', [0xFB]),
   (asc ''u_'', [0x16B]),
   (asc ''u`'', [0xF9]),
   (asc ''u~'', [0x169]),
   (asc ''y'' @ [0x27], [0xFD]),
   (asc ''y:'', [0xFF]),
   (asc ''z'' @ [0x27], [0x17A])]"

definition index_map :: "('k \<times> gostring) list \<Rightarrow> 'k \<Rightarrow> gostring" where
  \<comment> \<open>\<open>m[key]\<close>\<close>
  "index_map m k = (case map_of m k of None \<Rightarrow> [] | Some v \<Rightarrow> v)"

section \<open>The conversion functions\<close>

datatype log_line =
    JisNotImplemented int gostring  \<comment> \<open>\<open>jis code not implemented: %d: %s\<close>\<close>
  | BadHdr gostring  \<comment> \<open>\<open>bad hdr: %s\<close>\<close>

datatype error =
    OpenFailed  \<comment> \<open>\<open>log.Fatal(err)\<close> after \<open>os.Open\<close>\<close>
  | IndexOutOfRange  \<comment> \<open>the runtime panic of an index expression\<close>

subsection \<open>replace\_jis\<close>

text \<open>
  The annotation is U+203B (reference mark), U+FF3B (fullwidth left square bracket),
  U+FF03 (fullwidth number sign), a description without U+FF3D (fullwidth right square
  bracket), and U+FF3D. The numeric pattern is U+7B2C, a digit, U+6C34 U+6E96, a digit, a
  hyphen, two digits, a hyphen, two digits; \<open>\d\<close> is an ASCII digit in Go.
\<close>

definition digit :: "rune \<Rightarrow> bool" where
  "digit c = (0x30 \<le> c \<and> c \<le> 0x39)"

definition jis_exp :: regex where
  "jis_exp = ([Lit [0x203B, 0xFF3B, 0xFF03], Plus (\<lambda>c. c \<noteq> 0xFF3D), Lit [0xFF3D]], [(1, 1)])"

definition sub_exp :: regex where
  "sub_exp =
     ([Lit [0x7B2C], One digit, Lit [0x6C34, 0x6E96], One digit, Lit (asc ''-''),
       One digit, One digit, Lit (asc ''-''), One digit, One digit],
      [(1, 1), (3, 1), (5, 2), (8, 2)])"

definition strconv_Atoi :: "gostring \<Rightarrow> int" where
  \<comment> \<open>on a string of ASCII digits short enough not to overflow; the error is dropped\<close>
  "strconv_Atoi s = foldl (\<lambda>n c. 10 * n + (int c - 0x30)) 0 s"

text \<open>
  One round of the loop. The list of annotations is computed once, before the loop; the
  numeric pattern is searched in the current value of \<open>str\<close>, the whole line.
\<close>

definition jis_step :: "gostring \<times> log_line list \<Rightarrow> gostring list \<Rightarrow> gostring \<times> log_line list" where
  "jis_step st matches =
     (case st of (str, logged) \<Rightarrow>
        (case FindStringSubmatch sub_exp str of
           None \<Rightarrow> (str, logged)
         | Some nums \<Rightarrow>
             (let num = strconv_Atoi (nums ! 1 @ nums ! 2 @ nums ! 3 @ nums ! 4)
              in case map_of jis_map num of
                   None \<Rightarrow> (str, logged @ [JisNotImplemented num (matches ! 0)])
                 | Some replacement \<Rightarrow>
                     (strings_Replace str (matches ! 0) replacement, logged))))"

definition replace_jis :: "gostring \<Rightarrow> gostring \<times> log_line list" where
  "replace_jis str = foldl jis_step (str, []) (FindAllStringSubmatch jis_exp str)"

subsection \<open>replace\_ruby\<close>

text \<open>
  The base of a ruby annotation is a run of characters of the four CJK blocks or one of
  U+3006, U+303B, U+3007, U+3005, U+30F6, after an optional U+FF5C (fullwidth vertical
  line); the reading stands between U+300A and U+300B. The emphasis annotation is
  U+FF3B U+FF03 U+300C, a text without U+300D, U+300D U+306B U+508D U+70B9 U+FF3D; the
  emphasis mark is U+FE45 (sesame dot).
\<close>

definition kanji :: "rune \<Rightarrow> bool" where
  "kanji c =
     (0x3400 \<le> c \<and> c \<le> 0x4DBF \<or> 0x4E00 \<le> c \<and> c \<le> 0x9FFF
      \<or> 0xF900 \<le> c \<and> c \<le> 0xFAFF \<or> 0x20000 \<le> c \<and> c \<le> 0x2FA1F
      \<or> c = 0x3006 \<or> c = 0x303B \<or> c = 0x3007 \<or> c = 0x3005 \<or> c = 0x30F6)"

definition ruby_exp :: regex where
  "ruby_exp =
     ([Opt (\<lambda>c. c = 0xFF5C), Plus kanji, Lit [0x300A], Plus (\<lambda>c. c \<noteq> 0x300B), Lit [0x300B]],
      [(1, 1), (3, 1)])"

definition bouten_exp :: regex where
  "bouten_exp =
     ([Lit [0xFF3B, 0xFF03, 0x300C], Plus (\<lambda>c. c \<noteq> 0x300D),
       Lit [0x300D, 0x306B, 0x508D, 0x70B9, 0xFF3D]],
      [(1, 1)])"

definition ruby_pass :: "OutFmt \<Rightarrow> gostring \<Rightarrow> gostring" where
  \<comment> \<open>the first loop of \<open>replace_ruby\<close>\<close>
  "ruby_pass of' str =
     foldl (\<lambda>str matches.
              strings_Replace str (matches ! 0)
                (fmt_Sprintf (ruby of') [matches ! 1, matches ! 2]))
       str (FindAllStringSubmatch ruby_exp str)"

definition bouten_pass :: "OutFmt \<Rightarrow> gostring \<Rightarrow> gostring" where
  \<comment> \<open>the second loop of \<open>replace_ruby\<close>\<close>
  "bouten_pass of' str =
     foldl (\<lambda>str matches.
              let bouten = strings_Repeat [0xFE45] (length (matches ! 1))
              in strings_Replace str (matches ! 1 @ matches ! 0)
                   (fmt_Sprintf (ruby of') [matches ! 1, bouten]))
       str (FindAllStringSubmatch bouten_exp str)"

definition replace_ruby :: "gostring \<Rightarrow> OutFmt \<Rightarrow> gostring" where
  "replace_ruby str of' = bouten_pass of' (ruby_pass of' str)"

subsection \<open>replace\_accents\<close>

text \<open>
  A bracketed segment stands between U+3014 and U+3015. Go leaves the order in which
  \<open>range\<close> visits the keys of a map unspecified and varies it from one loop to the next,
  so the order is a parameter of the model: \<open>ord i\<close> lists the keys as round \<open>i\<close> of
  the outer loop visits them, and \<open>key_order\<close> says that it is an order of the table.
\<close>

definition accent_exp :: regex where
  "accent_exp = ([Lit [0x3014], Plus (\<lambda>c. c \<noteq> 0x3015), Lit [0x3015]], [(1, 1)])"

definition range_accents :: "gostring list \<Rightarrow> gostring \<Rightarrow> gostring" where
  "range_accents keys str =
     foldl (\<lambda>str key. strings_Replace str key (index_map accent_map key)) str keys"

fun accents_loop ::
  "(nat \<Rightarrow> gostring list) \<Rightarrow> nat \<Rightarrow> gostring list list \<Rightarrow> gostring \<Rightarrow> gostring" where
  "accents_loop ord i [] str = str"
| "accents_loop ord i (matches # rest) str =
     accents_loop ord (Suc i) rest
       (range_accents (ord i) (strings_Replace str (matches ! 0) (matches ! 1)))"

definition replace_accents :: "(nat \<Rightarrow> gostring list) \<Rightarrow> gostring \<Rightarrow> gostring" where
  "replace_accents ord str = accents_loop ord 0 (FindAllStringSubmatch accent_exp str) str"

definition key_order :: "gostring list \<Rightarrow> bool" where
  "key_order keys = (distinct keys \<and> set keys = set (map fst accent_map))"

subsection \<open>replace\_hdrs\<close>

text \<open>
  0x0A is the newline. The structured heading is two newlines, U+FF3B, a run without
  U+FF3B, U+FF3B U+FF03 U+300C, the title (no U+300D), U+300D U+306F, one of U+5927,
  U+4E2D, U+5C0F, then U+898B U+51FA U+3057 U+FF3D and three newlines. Without any such
  block, a line between two runs of three newlines is a heading.
\<close>

definition hdr_exp :: regex where
  "hdr_exp =
     ([Lit [0x0A, 0x0A, 0xFF3B], Plus (\<lambda>c. c \<noteq> 0xFF3B), Lit [0xFF3B, 0xFF03, 0x300C],
       Plus (\<lambda>c. c \<noteq> 0x300D), Lit [0x300D, 0x306F],
       One (\<lambda>c. c = 0x5927 \<or> c = 0x4E2D \<or> c = 0x5C0F),
       Lit [0x898B, 0x51FA, 0x3057, 0xFF3D, 0x0A, 0x0A, 0x0A]],
      [(3, 1), (5, 1)])"

definition plain_hdr_exp :: regex where
  "plain_hdr_exp =
     ([Lit [0x0A, 0x0A, 0x0A], Plus (\<lambda>c. c \<noteq> 0x0A), Lit [0x0A, 0x0A, 0x0A]], [(1, 1)])"

definition hdr_step :: "OutFmt \<Rightarrow> gostring \<times> log_line list \<Rightarrow> gostring list \<Rightarrow> gostring \<times> log_line list" where
  "hdr_step of' st matches =
     (case st of (str, logged) \<Rightarrow>
        (let (replacement, logged') =
               (if matches ! 2 = [0x5927] then (fmt_Sprintf (hdr of') [matches ! 1], logged)
                else if matches ! 2 = [0x4E2D] then (fmt_Sprintf (shdr of') [matches ! 1], logged)
                else if matches ! 2 = [0x5C0F] then (fmt_Sprintf (sshdr of') [matches ! 1], logged)
                else (matches ! 1, logged @ [BadHdr (matches ! 0)]))
         in (strings_Replace str (matches ! 0) (replacement @ [0x0A]), logged')))"

definition replace_hdrs :: "gostring \<Rightarrow> OutFmt \<Rightarrow> gostring \<times> log_line list" where
  "replace_hdrs str of' =
     (let slices = FindAllStringSubmatch hdr_exp str
      in if slices = [] then
           (foldl (\<lambda>str matches.
                     strings_Replace str (matches ! 0)
                       ([0x0A] @ fmt_Sprintf (hdr of') [matches ! 1] @ [0x0A]))
              str (FindAllStringSubmatch plain_hdr_exp str), [])
         else foldl (hdr_step of') (str, []) slices)"

subsection \<open>trim\_info\<close>

definition delim :: gostring where
  "delim = [0x0A] @ strings_Repeat (asc ''-'') 55 @ [0x0A]"

definition trim_info :: "gostring \<Rightarrow> error + gostring" where
  "trim_info str =
     (let slices = strings_Split str delim
      in if length slices < 3 then Inl IndexOutOfRange
         else Inr (strings_Join [slices ! 0, slices ! 2] []))"

subsection \<open>parse\<close>

text \<open>
  The file is read through a \<open>bufio.Scanner\<close> with the default split function
  \<open>ScanLines\<close> and the default buffer. A line ends at a newline (0x0A) or at the end of
  the file, one carriage return (0x0D) before the newline is dropped, and no empty line
  is delivered after the last newline. The buffer grows to \<open>MaxScanTokenSize\<close>, 65536
  bytes, and must hold a line together with its newline, or one byte more than a last
  line without newline before the end of the file is seen: a line of more than 65535
  bytes ends the scan with \<open>ErrTooLong\<close>. The length that counts is that of the UTF-8
  encoding. The second component of the result says whether the scan ended that way;
  read errors of the file are outside the model.
\<close>

definition utf8_RuneLen :: "rune \<Rightarrow> nat" where
  "utf8_RuneLen c = (if c < 0x80 then 1 else if c < 0x800 then 2 else if c < 0x10000 then 3 else 4)"

definition len :: "gostring \<Rightarrow> nat" where
  \<comment> \<open>the number of bytes of a string\<close>
  "len s = sum_list (map utf8_RuneLen s)"

definition dropCR :: "gostring \<Rightarrow> gostring" where
  "dropCR l = (if l \<noteq> [] \<and> last l = 0x0D then butlast l else l)"

function Scanner_lines :: "gostring \<Rightarrow> gostring list \<times> bool" where
  "Scanner_lines [] = ([], False)"
| "Scanner_lines (c # s) =
     (let l = takeWhile (\<lambda>x. x \<noteq> 0x0A) (c # s)
      in if 65535 < len l then ([], True)
         else (case Scanner_lines (drop (length l + 1) (c # s)) of
                 (ls, too_long) \<Rightarrow> (dropCR l # ls, too_long)))"
  by pat_completeness auto
termination
  by (relation "measure length") auto

text \<open>
  The body of the scanning loop. U+3000 is the ideographic space. The key orders of
  line \<open>n\<close> are \<open>ord n\<close>.
\<close>

definition preprocess ::
  "OutFmt \<Rightarrow> (nat \<Rightarrow> gostring list) \<Rightarrow> gostring \<Rightarrow> gostring \<times> log_line list" where
  "preprocess of' ord text =
     (let line = strings_Trim text [0x3000];
          (line, logged) = replace_jis line;
          line = replace_ruby line of';
          line = replace_accents ord line
      in (line, logged))"

definition joined ::
  "OutFmt \<Rightarrow> (nat \<Rightarrow> nat \<Rightarrow> gostring list) \<Rightarrow> gostring list \<Rightarrow> gostring" where
  \<comment> \<open>\<open>strings.Join(lines, "\n\n")\<close> after the scanning loop\<close>
  "joined of' ord texts =
     strings_Join (map (\<lambda>(n, text). fst (preprocess of' (ord n) text)) (enumerate 0 texts))
       [0x0A, 0x0A]"

text \<open>
  The lines of a document in which every two neighbours of the given list are
  separated by one empty line. No function of the program computes this; it says what
  the joined document looks like.
\<close>

fun blank_between :: "gostring list \<Rightarrow> gostring list" where
  "blank_between [] = []"
| "blank_between [x] = [x]"
| "blank_between (x # y # r) = x # [] # blank_between (y # r)"

definition trim_stage :: "bool \<Rightarrow> gostring \<Rightarrow> error + gostring" where
  "trim_stage debug out = (if debug = False then trim_info out else Inr out)"

text \<open>
  \<open>parse\<close> takes the content of the file, \<open>None\<close> when the file cannot be opened. The
  loop runs while \<open>Scan\<close> delivers a line; \<open>r.Err()\<close> is never read, so a scan that
  ended with \<open>ErrTooLong\<close> is taken as the end of the file. The page-break marker is
  U+FF3B U+FF03 U+6539 U+30DA U+30FC U+30B8 U+FF3D. The result is what was logged and
  the returned text, or the error that ended the program.
\<close>

definition parse ::
  "gostring option \<Rightarrow> OutFmt \<Rightarrow> bool \<Rightarrow> (nat \<Rightarrow> nat \<Rightarrow> gostring list)
     \<Rightarrow> log_line list \<times> (error + gostring)" where
  "parse file of' debug ord =
     (case file of
        None \<Rightarrow> ([], Inl OpenFailed)
      | Some content \<Rightarrow>
          (let texts = fst (Scanner_lines content);
               logged =
                 concat (map (\<lambda>(n, text). snd (preprocess of' (ord n) text)) (enumerate 0 texts));
               out = joined of' ord texts;
               (out, logged') = replace_hdrs out of';
               out = strings_Replace out [0xFF3B, 0xFF03, 0x6539, 0x30DA, 0x30FC, 0x30B8, 0xFF3D]
                       (pb of')
           in (logged @ logged', trim_stage debug out)))"

section \<open>Properties\<close>

lemma get_outfmt_modelled:
  "fmt_modelled (ruby (get_outfmt f)) \<and> fmt_modelled (hdr (get_outfmt f))
   \<and> fmt_modelled (shdr (get_outfmt f)) \<and> fmt_modelled (sshdr (get_outfmt f))"
  by (simp add: get_outfmt_def asc_def)

subsection \<open>No expression matches the empty string\<close>

lemma concat_grow_not_Nil: "concat (grow x segs) \<noteq> []"
  by (cases segs) (simp_all add: grow_def)

lemma mtch_Lit_not_empty:
  "mtch (Lit (c # l) # its) s = Some segs \<Longrightarrow> concat segs \<noteq> []"
  by (auto simp: push_def split: if_splits)

lemma mtch_Plus_not_empty:
  "mtch (Plus p # its) s = Some segs \<Longrightarrow> concat segs \<noteq> []"
  by (cases s) (auto simp: concat_grow_not_Nil simp del: concat_eq_Nil_conv split: if_splits)

lemma mtch_Opt_Plus_not_empty:
  assumes "mtch (Opt p # Plus q # its) s = Some segs"
  shows "concat segs \<noteq> []"
proof (cases s)
  case Nil
  with assms show ?thesis
    by (simp add: push_def)
next
  case (Cons x xs)
  with assms consider r where "segs = [x] # r"
    | r where "segs = [] # r" "mtch (Plus q # its) (x # xs) = Some r"
    by (auto simp: push_def simp del: mtch.simps(8) split: if_splits option.splits)
  then show ?thesis
  proof cases
    case 1
    then show ?thesis by simp
  next
    case 2
    from mtch_Plus_not_empty [OF 2(2)] 2(1) show ?thesis
      by (simp del: concat_eq_Nil_conv)
  qed
qed

lemma matches_not_empty:
  assumes "re \<in> {jis_exp, sub_exp, ruby_exp, bouten_exp, accent_exp, hdr_exp, plain_hdr_exp}"
    and "mtch (fst re) s = Some segs"
  shows "concat segs \<noteq> []"
proof -
  from assms(1) consider c l its where "fst re = Lit (c # l) # its"
    | p q its where "fst re = Opt p # Plus q # its"
    by (auto simp: jis_exp_def sub_exp_def ruby_exp_def bouten_exp_def accent_exp_def
        hdr_exp_def plain_hdr_exp_def)
  then show ?thesis
  proof cases
    case 1
    with assms(2) show ?thesis
      using mtch_Lit_not_empty by metis
  next
    case 2
    with assms(2) show ?thesis
      using mtch_Opt_Plus_not_empty by metis
  qed
qed

subsection \<open>Matching a run of a character class\<close>

lemma repl_self: "s \<noteq> [] \<Longrightarrow> repl s s new = new"
  by (cases s) simp_all

lemma strings_Replace_self: "s \<noteq> [] \<Longrightarrow> strings_Replace s s new = new"
  by (simp add: strings_Replace_def repl_self)

lemma mtch_Star_run:
  "\<forall>c\<in>set xs. p c \<Longrightarrow> \<not> p y \<Longrightarrow> mtch its (y # rest) = Some segs
   \<Longrightarrow> mtch (Star p # its) (xs @ y # rest) = Some (xs # segs)"
  by (induction xs) (simp_all add: push_def grow_def)

lemma mtch_Plus_run:
  "xs \<noteq> [] \<Longrightarrow> \<forall>c\<in>set xs. p c \<Longrightarrow> \<not> p y \<Longrightarrow> mtch its (y # rest) = Some segs
   \<Longrightarrow> mtch (Plus p # its) (xs @ y # rest) = Some (xs # segs)"
  by (cases xs) (simp_all add: mtch_Star_run grow_def)

lemma find_all_whole:
  "s \<noteq> [] \<Longrightarrow> mtch its s = Some segs \<Longrightarrow> concat segs = s \<Longrightarrow> find_all its s = [segs]"
  by (cases s) simp_all

lemma find_all_no_first_rune:
  "c0 \<notin> set s \<Longrightarrow> find_all (Lit (c0 # l) # its) s = []"
  by (induction s) auto

subsection \<open>Lines without markup\<close>

lemma find_all_Cons_Nil:
  "find_all its (c # s) = [] \<longleftrightarrow> mtch its (c # s) = None \<and> find_all its s = []"
  by (simp split: option.splits)

lemma find_all_Nil_iff:
  "find_all its s = [] \<longleftrightarrow> (\<forall>t. suffix t s \<and> t \<noteq> [] \<longrightarrow> mtch its t = None)"
proof (induction s)
  case Nil
  then show ?case by simp
next
  case (Cons c s)
  show ?case
    unfolding find_all_Cons_Nil Cons.IH by (auto simp: suffix_Cons)
qed

text \<open>A match is not lost when more text follows.\<close>

lemma mtch_extend: "mtch its s \<noteq> None \<Longrightarrow> mtch its (s @ w) \<noteq> None"
proof (induction its s rule: mtch.induct)
  case (1 s)
  then show ?case by simp
next
  case (2 l its s)
  then show ?case by (auto simp: push_def split: if_splits dest: prefix_length_le)
next
  case (3 p its)
  then show ?case by simp
next
  case (4 p its x xs)
  then show ?case by (auto simp: push_def split: if_splits)
next
  case (5 p its)
  then show ?case by (cases w) (auto simp: push_def split: option.splits)
next
  case (6 p its x xs)
  then show ?case by (auto simp: push_def split: if_splits option.splits)
next
  case (7 p its)
  then show ?case by simp
next
  case (8 p its x xs)
  then show ?case by (auto split: if_splits)
next
  case (9 p its)
  then show ?case by (cases w) (auto simp: push_def split: option.splits)
next
  case (10 p its x xs)
  then show ?case by (auto simp: push_def split: if_splits option.splits)
qed

lemma find_all_Nil_infix:
  assumes "find_all its (pre @ mid @ post) = []"
  shows "find_all its mid = []"
  unfolding find_all_Nil_iff
proof (intro allI impI)
  fix t
  assume t: "suffix t mid \<and> t \<noteq> []"
  then have "suffix (t @ post) (pre @ mid @ post)"
    by (auto simp: suffix_def)
  moreover have "t @ post \<noteq> []"
    using t by simp
  ultimately have "mtch its (t @ post) = None"
    using assms unfolding find_all_Nil_iff by blast
  then show "mtch its t = None"
    using mtch_extend [of its t post] by blast
qed

lemma strings_Trim_infix: "\<exists>pre post. s = pre @ strings_Trim s cutset @ post"
proof -
  let ?P = "\<lambda>c. c \<in> set cutset"
  let ?d = "dropWhile ?P s"
  have "rev ?d = takeWhile ?P (rev ?d) @ dropWhile ?P (rev ?d)"
    by simp
  then have "?d = rev (dropWhile ?P (rev ?d)) @ rev (takeWhile ?P (rev ?d))"
    by (metis rev_append rev_rev_ident)
  moreover have "s = takeWhile ?P s @ ?d"
    by simp
  ultimately have "s = takeWhile ?P s @ strings_Trim s cutset @ rev (takeWhile ?P (rev ?d))"
    by (simp add: strings_Trim_def)
  then show ?thesis by blast
qed

lemma FindAll_Nil_Trim:
  "FindAllStringSubmatch re s = [] \<Longrightarrow> FindAllStringSubmatch re (strings_Trim s cutset) = []"
  using strings_Trim_infix [of s cutset] find_all_Nil_infix [of "fst re"]
  by (metis FindAllStringSubmatch_def map_is_Nil_conv)

lemma strings_Trim_none:
  assumes "s = [] \<or> hd s \<notin> set cutset \<and> last s \<notin> set cutset"
  shows "strings_Trim s cutset = s"
proof (cases "s = []")
  case True
  then show ?thesis by (simp add: strings_Trim_def)
next
  case False
  with assms have ends: "hd s \<notin> set cutset" "last s \<notin> set cutset"
    by simp_all
  have "dropWhile (\<lambda>c. c \<in> set cutset) s = s"
    using False ends(1) by (cases s) auto
  moreover have "dropWhile (\<lambda>c. c \<in> set cutset) (rev s) = rev s"
    using False ends(2) by (cases "rev s") (auto simp: last_rev hd_rev)
  ultimately show ?thesis
    by (simp add: strings_Trim_def)
qed

text \<open>
  C7 as amended. A line in which none of the four expressions of the scanning loop
  finds a match (no glyph annotation, no ruby annotation, no emphasis annotation, no
  bracketed accent segment) comes out of the loop body with its leading and trailing
  U+3000 removed, and nothing is logged. It comes out unchanged when it is empty or
  neither starts nor ends with U+3000.
\<close>

theorem C7_plain_line:
  assumes "FindAllStringSubmatch jis_exp line = []"
    and "FindAllStringSubmatch ruby_exp line = []"
    and "FindAllStringSubmatch bouten_exp line = []"
    and "FindAllStringSubmatch accent_exp line = []"
  shows "preprocess of' ord line = (strings_Trim line [0x3000], [])
     \<and> (line = [] \<or> hd line \<noteq> 0x3000 \<and> last line \<noteq> 0x3000 \<longrightarrow>
          preprocess of' ord line = (line, []))"
proof -
  have trimmed: "preprocess of' ord line = (strings_Trim line [0x3000], [])"
    using assms [THEN FindAll_Nil_Trim, of "[0x3000]"]
    by (simp add: preprocess_def replace_jis_def replace_ruby_def ruby_pass_def bouten_pass_def
        replace_accents_def)
  have "strings_Trim line [0x3000] = line"
    if "line = [] \<or> hd line \<noteq> 0x3000 \<and> last line \<noteq> 0x3000"
    using that by (intro strings_Trim_none) auto
  with trimmed show ?thesis by simp
qed

theorem C7_plain_line_witness:
  "preprocess (get_outfmt (asc ''md'')) (\<lambda>i. []) (asc ''abc'') = (asc ''abc'', [])"
proof -
  have h: "FindAllStringSubmatch jis_exp (asc ''abc'') = []"
    "FindAllStringSubmatch ruby_exp (asc ''abc'') = []"
    "FindAllStringSubmatch bouten_exp (asc ''abc'') = []"
    "FindAllStringSubmatch accent_exp (asc ''abc'') = []"
    by (simp_all add: FindAllStringSubmatch_def jis_exp_def ruby_exp_def bouten_exp_def
        accent_exp_def asc_def kanji_def push_def)
  have e: "asc ''abc'' = [] \<or> hd (asc ''abc'') \<noteq> 0x3000 \<and> last (asc ''abc'') \<noteq> 0x3000"
    by (simp add: asc_def)
  show ?thesis
    using C7_plain_line [OF h, of "get_outfmt (asc ''md'')" "\<lambda>i. []"] e by blast
qed

text \<open>
  The claim as stated fails on the line U+3000 U+3042, an indented line of plain text:
  no expression matches, and the pipeline returns U+3042 alone.
\<close>

theorem C7_plain_line_counterexample:
  "FindAllStringSubmatch jis_exp [0x3000, 0x3042] = []
   \<and> FindAllStringSubmatch ruby_exp [0x3000, 0x3042] = []
   \<and> FindAllStringSubmatch bouten_exp [0x3000, 0x3042] = []
   \<and> FindAllStringSubmatch accent_exp [0x3000, 0x3042] = []
   \<and> preprocess (get_outfmt (asc ''plain'')) (\<lambda>i. map fst accent_map) [0x3000, 0x3042]
       = ([0x3042], [])
   \<and> fst (preprocess (get_outfmt (asc ''plain'')) (\<lambda>i. map fst accent_map) [0x3000, 0x3042])
       \<noteq> [0x3000, 0x3042]"
  by (simp add: preprocess_def replace_jis_def replace_ruby_def ruby_pass_def bouten_pass_def
      replace_accents_def FindAllStringSubmatch_def jis_exp_def ruby_exp_def bouten_exp_def
      accent_exp_def strings_Trim_def kanji_def push_def)

subsection \<open>Documents without headings\<close>

text \<open>
  C8. When the joined document holds no block that the structured heading expression
  matches and no line between two runs of three newlines, \<open>replace_hdrs\<close> returns the
  document as it is and logs nothing.
\<close>

theorem C8_replace_hdrs_noop:
  assumes "FindAllStringSubmatch hdr_exp str = []"
    and "FindAllStringSubmatch plain_hdr_exp str = []"
  shows "replace_hdrs str of' = (str, [])"
  using assms by (simp add: replace_hdrs_def)

theorem C8_replace_hdrs_noop_witness:
  "replace_hdrs (asc ''a'' @ [0x0A, 0x0A] @ asc ''b'' @ [0x0A, 0x0A, 0x0A, 0x0A] @ asc ''c'')
     (get_outfmt (asc ''md''))
   = (asc ''a'' @ [0x0A, 0x0A] @ asc ''b'' @ [0x0A, 0x0A, 0x0A, 0x0A] @ asc ''c'', [])"
proof -
  have h:
    "FindAllStringSubmatch hdr_exp
       (asc ''a'' @ [0x0A, 0x0A] @ asc ''b'' @ [0x0A, 0x0A, 0x0A, 0x0A] @ asc ''c'') = []"
    "FindAllStringSubmatch plain_hdr_exp
       (asc ''a'' @ [0x0A, 0x0A] @ asc ''b'' @ [0x0A, 0x0A, 0x0A, 0x0A] @ asc ''c'') = []"
    by (simp_all add: FindAllStringSubmatch_def hdr_exp_def plain_hdr_exp_def asc_def push_def)
  show ?thesis
    using C8_replace_hdrs_noop [OF h] .
qed

subsection \<open>The metadata block\<close>

lemma length_splt: "length (splt s sep) = Suc (cnt s sep)"
  by (induction s sep rule: splt.induct) (auto split: list.splits)

lemma splt_first:
  "sep \<noteq> [] \<Longrightarrow> \<forall>i<length a. \<not> prefix sep (drop i (a @ sep @ r))
   \<Longrightarrow> splt (a @ sep @ r) sep = a # splt r sep"
proof (induction a)
  case Nil
  then obtain c s where "sep @ r = c # s"
    by (cases "sep @ r") auto
  then show ?case
    using Nil by (metis append_eq_conv_conj prefixI splt.simps(2) append_Nil)
next
  case (Cons x a)
  from Cons.prems(2) have "\<not> prefix sep (drop 0 ((x # a) @ sep @ r))"
    by blast
  then have no: "\<not> prefix sep (x # a @ sep @ r)"
    by simp
  have "\<forall>i<length a. \<not> prefix sep (drop i (a @ sep @ r))"
  proof (intro allI impI)
    fix i
    assume "i < length a"
    then have "Suc i < length (x # a)"
      by simp
    with Cons.prems(2) have "\<not> prefix sep (drop (Suc i) ((x # a) @ sep @ r))"
      by blast
    then show "\<not> prefix sep (drop i (a @ sep @ r))"
      by simp
  qed
  with Cons.IH Cons.prems(1) have "splt (a @ sep @ r) sep = a # splt r sep"
    by blast
  with no show ?case by simp
qed

lemma splt_none:
  "sep \<noteq> [] \<Longrightarrow> \<forall>i\<le>length s. \<not> prefix sep (drop i s) \<Longrightarrow> splt s sep = [s]"
proof (induction s)
  case Nil
  then show ?case by simp
next
  case (Cons x s)
  from Cons.prems(2) have "\<not> prefix sep (drop 0 (x # s))"
    by blast
  then have no: "\<not> prefix sep (x # s)"
    by simp
  have "\<forall>i\<le>length s. \<not> prefix sep (drop i s)"
  proof (intro allI impI)
    fix i
    assume "i \<le> length s"
    then have "Suc i \<le> length (x # s)"
      by simp
    with Cons.prems(2) have "\<not> prefix sep (drop (Suc i) (x # s))"
      by blast
    then show "\<not> prefix sep (drop i s)"
      by simp
  qed
  with Cons.IH Cons.prems(1) have "splt s sep = [s]"
    by blast
  with no show ?case by simp
qed

lemma occurrences_from_complete:
  "j \<le> length s \<Longrightarrow> prefix sub (drop j s) \<Longrightarrow> k + j \<in> set (occurrences_from k s sub)"
proof (induction s arbitrary: j k)
  case Nil
  then show ?case by simp
next
  case (Cons c s)
  show ?case
  proof (cases j)
    case 0
    with Cons.prems show ?thesis by simp
  next
    case (Suc j')
    with Cons.prems have "j' \<le> length s" "prefix sub (drop j' s)"
      by simp_all
    then have "(k + 1) + j' \<in> set (occurrences_from (k + 1) s sub)"
      by (rule Cons.IH)
    with Suc show ?thesis by simp
  qed
qed

lemma occurrences_complete:
  "i \<le> length s \<Longrightarrow> prefix sub (drop i s) \<Longrightarrow> i \<in> set (occurrences s sub)"
  using occurrences_from_complete [of i s sub 0] by (simp add: occurrences_def)

lemma delim_runes: "delim = 0x0A # replicate 55 0x2D @ [0x0A]"
  by (simp add: delim_def strings_Repeat_def asc_def)

lemma replicate_55:
  "replicate 55 (x::rune) =
     [x, x, x, x, x, x, x, x, x, x, x, x, x, x, x, x, x, x, x, x, x, x, x, x, x, x, x, x,
      x, x, x, x, x, x, x, x, x, x, x, x, x, x, x, x, x, x, x, x, x, x, x, x, x, x, x]"
  by (simp add: eval_nat_numeral)

lemma length_delim: "length delim = 57"
  by (simp add: delim_runes)

lemma delim_not_Nil: "delim \<noteq> []"
  by (simp add: delim_runes)

lemma split_three:
  assumes "occurrences (A @ delim @ B @ delim @ C) delim
           = [length A, length A + length delim + length B]"
  shows "strings_Split (A @ delim @ B @ delim @ C) delim = [A, B, C]"
proof -
  let ?doc = "A @ delim @ B @ delim @ C"
  have occ: "i = length A \<or> i = length A + length delim + length B"
    if "prefix delim (drop i ?doc)" "i \<le> length ?doc" for i
    using occurrences_complete [of i ?doc delim] assms that by auto
  have a: "\<forall>i<length A. \<not> prefix delim (drop i (A @ delim @ B @ delim @ C))"
    using occ by fastforce
  have b: "\<forall>i<length B. \<not> prefix delim (drop i (B @ delim @ C))"
  proof (intro allI impI notI)
    fix i
    assume i: "i < length B" and p: "prefix delim (drop i (B @ delim @ C))"
    have "drop (length A + length delim + i) ?doc = drop i (B @ delim @ C)"
      by simp
    with p occ [of "length A + length delim + i"] i length_delim show False
      by auto
  qed
  have c: "\<forall>i\<le>length C. \<not> prefix delim (drop i C)"
  proof (intro allI impI notI)
    fix i
    assume i: "i \<le> length C" and p: "prefix delim (drop i C)"
    have "drop (length A + length delim + length B + length delim + i) ?doc = drop i C"
      by simp
    with p occ [of "length A + length delim + length B + length delim + i"] i length_delim
    show False by auto
  qed
  have "splt ?doc delim = A # splt (B @ delim @ C) delim"
    using splt_first [OF delim_not_Nil a] .
  also have "splt (B @ delim @ C) delim = B # splt C delim"
    using splt_first [OF delim_not_Nil b] .
  also have "splt C delim = [C]"
    using splt_none [OF delim_not_Nil c] .
  finally show ?thesis
    by (simp add: strings_Split_def delim_not_Nil)
qed

text \<open>
  C2. Let the document be \<open>A\<close>, the delimiter (a newline, 55 hyphens, a newline), \<open>B\<close>,
  the delimiter, \<open>C\<close>, and let these two be the only places where the delimiter occurs
  in it, so that \<open>A\<close>, \<open>B\<close> and \<open>C\<close> are its three segments. Without the debug flag the
  document is trimmed to \<open>A\<close> followed by \<open>C\<close>; with the debug flag it is returned as
  it is.
\<close>

theorem C2_trim_three_segments:
  assumes "occurrences (A @ delim @ B @ delim @ C) delim
           = [length A, length A + length delim + length B]"
  shows "trim_stage False (A @ delim @ B @ delim @ C) = Inr (A @ C)
     \<and> trim_stage True (A @ delim @ B @ delim @ C) = Inr (A @ delim @ B @ delim @ C)"
  by (simp add: trim_stage_def trim_info_def split_three [OF assms])

theorem C2_trim_three_segments_witness:
  "trim_stage False (asc ''a'' @ delim @ asc ''b'' @ delim @ asc ''c'') = Inr (asc ''a'' @ asc ''c'')
   \<and> trim_stage True (asc ''a'' @ delim @ asc ''b'' @ delim @ asc ''c'')
     = Inr (asc ''a'' @ delim @ asc ''b'' @ delim @ asc ''c'')"
proof -
  have h: "occurrences (asc ''a'' @ delim @ asc ''b'' @ delim @ asc ''c'') delim
           = [length (asc ''a''), length (asc ''a'') + length delim + length (asc ''b'')]"
    by (simp add: occurrences_def delim_runes replicate_55 asc_def)
  show ?thesis
    using C2_trim_three_segments [OF h] .
qed

text \<open>
  C3. \<open>trim_info\<close> indexes the third segment without a check. Whenever the split yields
  fewer than three segments, that is whenever \<open>strings.Count\<close> finds fewer than two
  delimiters, the index is out of range and the program panics; it panics in no other
  case.
\<close>

theorem C3_trim_info_panics:
  "(length (strings_Split str delim) < 3 \<longrightarrow> trim_info str = Inl IndexOutOfRange)
   \<and> (strings_Count str delim < 2 \<longrightarrow> trim_info str = Inl IndexOutOfRange)
   \<and> (trim_info str = Inl IndexOutOfRange \<longrightarrow> length (strings_Split str delim) < 3)"
  by (simp add: trim_info_def strings_Split_def strings_Count_def delim_not_Nil length_splt
      Let_def)

theorem C3_trim_info_panics_witness:
  "length (strings_Split (asc ''abc'') delim) < 3
   \<and> strings_Count (asc ''abc'') delim < 2
   \<and> trim_info (asc ''abc'') = Inl IndexOutOfRange"
proof -
  have h: "length (strings_Split (asc ''abc'') delim) < 3"
    by (simp add: strings_Split_def delim_runes asc_def)
  have k: "strings_Count (asc ''abc'') delim < 2"
    by (simp add: strings_Count_def delim_runes asc_def)
  show ?thesis
    using C3_trim_info_panics [of "asc ''abc''"] h k by blast
qed

subsection \<open>Accent tokens\<close>

lemma accent_table_shape:
  "list_all (\<lambda>(k, v). 2 \<le> length k \<and> list_all (\<lambda>x. x < 0x80) k \<and> length v = 1 \<and> 0x80 \<le> hd v) accent_map"
  by (simp add: accent_map_def asc_def)

lemma accent_entry:
  assumes "k \<in> set (map fst accent_map)"
  shows "2 \<le> length k \<and> (\<forall>x\<in>set k. x < 0x80) \<and> (\<exists>c. index_map accent_map k = [c] \<and> 0x80 \<le> c)"
proof -
  from assms obtain v where v: "map_of accent_map k = Some v"
    by (metis map_of_eq_None_iff not_Some_eq set_map)
  then have "(k, v) \<in> set accent_map" by (rule map_of_SomeD)
  with accent_table_shape have sh: "2 \<le> length k \<and> list_all (\<lambda>x. x < 0x80) k \<and> length v = 1 \<and> 0x80 \<le> hd v"
    by (auto simp: list_all_iff)
  then obtain c where "v = [c]" by (cases v) auto
  with sh v show ?thesis by (auto simp: index_map_def list_all_iff)
qed

lemma prefix_repl:
  "c \<notin> set p \<Longrightarrow> prefix p (repl s k [c]) \<Longrightarrow> prefix p s"
proof (induction s k "[c]" arbitrary: p rule: repl.induct)
  case (1 old)
  then show ?case by simp
next
  case (2 x s old)
  show ?case
  proof (cases "old \<noteq> [] \<and> prefix old (x # s)")
    case True
    with "2.prems" have "prefix p (c # repl (drop (length old) (x # s)) old [c])" by simp
    with "2.prems"(1) have "p = []" by (cases p) auto
    then show ?thesis by simp
  next
    case False
    with "2.prems" have pp: "prefix p (x # repl s old [c])" by auto
    show ?thesis
    proof (cases p)
      case Nil
      then show ?thesis by simp
    next
      case (Cons y p')
      with pp have "y = x" "prefix p' (repl s old [c])" by simp_all
      moreover have "c \<notin> set p'" using "2.prems"(1) Cons by simp
      ultimately have "prefix p' s" using "2.hyps"(2) False by blast
      with \<open>y = x\<close> Cons show ?thesis by simp
    qed
  qed
qed

lemma Contains_drop: "strings_Contains (drop n s) p \<Longrightarrow> strings_Contains s p"
proof (induction s arbitrary: n)
  case Nil
  then show ?case by simp
next
  case (Cons x s)
  show ?case
  proof (cases n)
    case 0
    with Cons.prems show ?thesis by simp
  next
    case (Suc m)
    with Cons show ?thesis by auto
  qed
qed

lemma Contains_repl:
  "c \<notin> set p \<Longrightarrow> p \<noteq> [] \<Longrightarrow> strings_Contains (repl s k [c]) p \<Longrightarrow> strings_Contains s p"
proof (induction s k "[c]" rule: repl.induct)
  case (1 old)
  then show ?case by simp
next
  case (2 x s old)
  show ?case
  proof (cases "old \<noteq> [] \<and> prefix old (x # s)")
    case True
    with "2.prems" have "strings_Contains (c # repl (drop (length old) (x # s)) old [c]) p" by simp
    moreover have "\<not> prefix p (c # repl (drop (length old) (x # s)) old [c])"
      using "2.prems"(1,2) by (cases p) auto
    ultimately have "strings_Contains (repl (drop (length old) (x # s)) old [c]) p" by simp
    with "2.hyps"(1) True "2.prems"(1,2) have "strings_Contains (drop (length old) (x # s)) p" by blast
    then show ?thesis by (rule Contains_drop)
  next
    case False
    with "2.prems" have "strings_Contains (x # repl s old [c]) p" by auto
    then consider "prefix p (x # repl s old [c])" | "strings_Contains (repl s old [c]) p" by auto
    then show ?thesis
    proof cases
      case 1
      then have "prefix p (repl (x # s) old [c])" using False by auto
      then have "prefix p (x # s)" using "2.prems"(1) by (rule prefix_repl[rotated])
      then show ?thesis by simp
    next
      case 2
      with "2.hyps"(2) False "2.prems"(1,2) have "strings_Contains s p" by blast
      then show ?thesis by simp
    qed
  qed
qed

lemma not_Contains_repl:
  "k \<noteq> [] \<Longrightarrow> c \<notin> set k \<Longrightarrow> \<not> strings_Contains (repl s k [c]) k"
proof (induction s k "[c]" rule: repl.induct)
  case (1 old)
  then show ?case by simp
next
  case (2 x s old)
  show ?case
  proof (cases "old \<noteq> [] \<and> prefix old (x # s)")
    case True
    have "\<not> prefix old (c # repl (drop (length old) (x # s)) old [c])"
      using "2.prems" by (cases old) auto
    moreover have "\<not> strings_Contains (repl (drop (length old) (x # s)) old [c]) old"
      using "2.hyps"(1) True "2.prems" by blast
    ultimately show ?thesis using True by simp
  next
    case False
    have "\<not> prefix old (x # repl s old [c])"
    proof
      assume "prefix old (x # repl s old [c])"
      then have "prefix old (repl (x # s) old [c])" using False by auto
      then have "prefix old (x # s)" using "2.prems"(2) by (rule prefix_repl[rotated])
      with False "2.prems"(1) show False by simp
    qed
    moreover have "\<not> strings_Contains (repl s old [c]) old"
      using "2.hyps"(2) False "2.prems" by blast
    ultimately show ?thesis using False by auto
  qed
qed

lemma Replace_accent:
  assumes "k \<in> set (map fst accent_map)"
  shows "\<exists>c. 0x80 \<le> c \<and> strings_Replace s k (index_map accent_map k) = repl s k [c]"
proof -
  from accent_entry [OF assms] obtain c where
    c: "index_map accent_map k = [c]" "0x80 \<le> c" and k: "2 \<le> length k" by blast
  from k have "k \<noteq> [c]" "k \<noteq> []" by auto
  with c show ?thesis by (auto simp: strings_Replace_def)
qed

lemma accent_step_keeps:
  assumes "k \<in> set (map fst accent_map)" "k' \<in> set (map fst accent_map)"
    and "\<not> strings_Contains s k'"
  shows "\<not> strings_Contains (strings_Replace s k (index_map accent_map k)) k'"
proof -
  from Replace_accent [OF assms(1)] obtain c where
    c: "0x80 \<le> c" "strings_Replace s k (index_map accent_map k) = repl s k [c]" by blast
  from accent_entry [OF assms(2)] have k': "k' \<noteq> []" "\<forall>x\<in>set k'. x < 0x80" by auto
  with c(1) have "c \<notin> set k'" by auto
  with assms(3) k'(1) show ?thesis
    unfolding c(2) using Contains_repl by blast
qed

lemma accent_step_removes:
  assumes "k \<in> set (map fst accent_map)"
  shows "\<not> strings_Contains (strings_Replace s k (index_map accent_map k)) k"
proof -
  from Replace_accent [OF assms(1)] obtain c where
    c: "0x80 \<le> c" "strings_Replace s k (index_map accent_map k) = repl s k [c]" by blast
  from accent_entry [OF assms] have k: "k \<noteq> []" "\<forall>x\<in>set k. x < 0x80" by auto
  with c(1) have "c \<notin> set k" by auto
  with k(1) show ?thesis
    unfolding c(2) by (rule not_Contains_repl)
qed

lemma range_accents_Cons:
  "range_accents (k # ks) s = range_accents ks (strings_Replace s k (index_map accent_map k))"
  by (simp add: range_accents_def)

lemma range_accents_keeps:
  "set ks \<subseteq> set (map fst accent_map) \<Longrightarrow> k' \<in> set (map fst accent_map)
   \<Longrightarrow> \<not> strings_Contains s k' \<Longrightarrow> \<not> strings_Contains (range_accents ks s) k'"
proof (induction ks arbitrary: s)
  case Nil
  then show ?case by (simp add: range_accents_def)
next
  case (Cons k ks)
  from Cons.prems have "\<not> strings_Contains (strings_Replace s k (index_map accent_map k)) k'"
    by (intro accent_step_keeps) auto
  with Cons show ?case
    unfolding range_accents_Cons by auto
qed

lemma range_accents_removes:
  "set ks \<subseteq> set (map fst accent_map) \<Longrightarrow> k' \<in> set ks
   \<Longrightarrow> \<not> strings_Contains (range_accents ks s) k'"
proof (induction ks arbitrary: s)
  case Nil
  then show ?case by simp
next
  case (Cons k ks)
  show ?case
  proof (cases "k' = k")
    case True
    have "\<not> strings_Contains (strings_Replace s k (index_map accent_map k)) k"
      using Cons.prems(1) by (intro accent_step_removes) auto
    with Cons.prems(1) True show ?thesis
      unfolding range_accents_Cons by (intro range_accents_keeps) auto
  next
    case False
    with Cons show ?thesis
      unfolding range_accents_Cons by auto
  qed
qed

lemma accents_loop_last:
  "ms \<noteq> [] \<Longrightarrow> \<exists>j s'. accents_loop ord i ms s = range_accents (ord j) s'"
proof (induction ms arbitrary: i s)
  case Nil
  then show ?case by simp
next
  case (Cons m ms)
  then show ?case by (cases ms) auto
qed

lemma index_o: "index_map accent_map [0x6F, 0x3A] = [0xF6]"
  by (simp add: index_map_def accent_map_def asc_def)

lemma o_key: "[0x6F, 0x3A] \<in> set (map fst accent_map)"
  by (simp add: accent_map_def asc_def)

lemma range_accents_decoded:
  "set ks \<subseteq> set (map fst accent_map) \<Longrightarrow> range_accents ks [0xF6] = [0xF6]"
proof (induction ks)
  case Nil
  then show ?case by (simp add: range_accents_def)
next
  case (Cons k ks)
  then have "k \<in> set (map fst accent_map)" by simp
  from Replace_accent [OF this, of "[0xF6]"] accent_entry [OF this]
  have "strings_Replace [0xF6] k (index_map accent_map k) = [0xF6]"
    by (cases k) auto
  with Cons show ?case unfolding range_accents_Cons by simp
qed

lemma range_accents_o:
  "set ks \<subseteq> set (map fst accent_map) \<Longrightarrow>
   range_accents ks [0x6F, 0x3A] = (if [0x6F, 0x3A] \<in> set ks then [0xF6] else [0x6F, 0x3A])"
proof (induction ks)
  case Nil
  then show ?case by (simp add: range_accents_def)
next
  case (Cons k ks)
  then have kin: "k \<in> set (map fst accent_map)" and sub: "set ks \<subseteq> set (map fst accent_map)" by simp_all
  show ?case
  proof (cases "k = [0x6F, 0x3A]")
    case True
    then have "strings_Replace [0x6F, 0x3A] k (index_map accent_map k) = [0xF6]"
      by (simp add: index_o strings_Replace_def)
    with True sub show ?thesis
      unfolding range_accents_Cons by (simp add: range_accents_decoded)
  next
    case False
    from accent_entry [OF kin] have "2 \<le> length k" by simp
    then obtain a b r where k: "k = a # b # r" by (cases k; cases "tl k") auto
    from Replace_accent [OF kin, of "[0x6F, 0x3A]"] False
    have "strings_Replace [0x6F, 0x3A] k (index_map accent_map k) = [0x6F, 0x3A]"
      by (auto simp: k)
    with False Cons.IH [OF sub] show ?thesis
      unfolding range_accents_Cons by auto
  qed
qed

lemma key_order_table: "key_order (map fst accent_map)"
  by (simp add: key_order_def accent_map_def asc_def)

lemma repl_absent: "\<not> strings_Contains s k \<Longrightarrow> repl s k new = s"
  by (induction s k new rule: repl.induct) auto

lemma accent_absent:
  assumes "k \<in> set (map fst accent_map)" "\<not> strings_Contains s k"
  shows "strings_Replace s k (index_map accent_map k) = s"
  using Replace_accent [OF assms(1), of s] assms(2) by (auto simp: repl_absent)

lemma index_a: "index_map accent_map [0x61, 0x27] = [0xE1]"
  by (simp add: index_map_def accent_map_def asc_def)

lemma tokens_in_example:
  "list_all (\<lambda>k. k = [0x61, 0x27] \<or> k = [0x6F, 0x3A] \<or> \<not> strings_Contains [0x61, 0x27, 0x6F, 0x3A] k) (map fst accent_map)"
  "list_all (\<lambda>k. k = [0x6F, 0x3A] \<or> \<not> strings_Contains [0xE1, 0x6F, 0x3A] k) (map fst accent_map)"
  "list_all (\<lambda>k. k = [0x61, 0x27] \<or> \<not> strings_Contains [0x61, 0x27, 0xF6] k) (map fst accent_map)"
  "list_all (\<lambda>k. \<not> strings_Contains [0xE1, 0xF6] k) (map fst accent_map)"
  by (simp_all add: accent_map_def asc_def)

lemma example_steps:
  assumes "k \<in> set (map fst accent_map)"
  shows "strings_Replace [0x61, 0x27, 0x6F, 0x3A] k (index_map accent_map k)
         = (if k = [0x61, 0x27] then [0xE1, 0x6F, 0x3A]
            else if k = [0x6F, 0x3A] then [0x61, 0x27, 0xF6] else [0x61, 0x27, 0x6F, 0x3A])"
    and "strings_Replace [0xE1, 0x6F, 0x3A] k (index_map accent_map k)
         = (if k = [0x6F, 0x3A] then [0xE1, 0xF6] else [0xE1, 0x6F, 0x3A])"
    and "strings_Replace [0x61, 0x27, 0xF6] k (index_map accent_map k)
         = (if k = [0x61, 0x27] then [0xE1, 0xF6] else [0x61, 0x27, 0xF6])"
    and "strings_Replace [0xE1, 0xF6] k (index_map accent_map k) = [0xE1, 0xF6]"
proof -
  from assms tokens_in_example have t:
    "k = [0x61, 0x27] \<or> k = [0x6F, 0x3A] \<or> \<not> strings_Contains [0x61, 0x27, 0x6F, 0x3A] k"
    "k = [0x6F, 0x3A] \<or> \<not> strings_Contains [0xE1, 0x6F, 0x3A] k"
    "k = [0x61, 0x27] \<or> \<not> strings_Contains [0x61, 0x27, 0xF6] k"
    "\<not> strings_Contains [0xE1, 0xF6] k"
    unfolding list_all_iff by blast+
  show "strings_Replace [0x61, 0x27, 0x6F, 0x3A] k (index_map accent_map k)
         = (if k = [0x61, 0x27] then [0xE1, 0x6F, 0x3A]
            else if k = [0x6F, 0x3A] then [0x61, 0x27, 0xF6] else [0x61, 0x27, 0x6F, 0x3A])"
    using t(1) accent_absent [OF assms]
    by (auto simp: index_a index_o strings_Replace_def)
  show "strings_Replace [0xE1, 0x6F, 0x3A] k (index_map accent_map k)
         = (if k = [0x6F, 0x3A] then [0xE1, 0xF6] else [0xE1, 0x6F, 0x3A])"
    using t(2) accent_absent [OF assms]
    by (auto simp: index_o strings_Replace_def)
  show "strings_Replace [0x61, 0x27, 0xF6] k (index_map accent_map k)
         = (if k = [0x61, 0x27] then [0xE1, 0xF6] else [0x61, 0x27, 0xF6])"
    using t(3) accent_absent [OF assms]
    by (auto simp: index_a strings_Replace_def)
  show "strings_Replace [0xE1, 0xF6] k (index_map accent_map k) = [0xE1, 0xF6]"
    using t(4) accent_absent [OF assms] by simp
qed

lemma example_done:
  "set ks \<subseteq> set (map fst accent_map) \<Longrightarrow> range_accents ks [0xE1, 0xF6] = [0xE1, 0xF6]"
  by (induction ks) (simp_all add: range_accents_def example_steps(4))

lemma example_a_done:
  "set ks \<subseteq> set (map fst accent_map) \<Longrightarrow>
   range_accents ks [0xE1, 0x6F, 0x3A]
   = (if [0x6F, 0x3A] \<in> set ks then [0xE1, 0xF6] else [0xE1, 0x6F, 0x3A])"
proof (induction ks)
  case Nil
  then show ?case by (simp add: range_accents_def)
next
  case (Cons k ks)
  then show ?case
    unfolding range_accents_Cons by (auto simp: example_steps(2) example_done)
qed

lemma example_o_done:
  "set ks \<subseteq> set (map fst accent_map) \<Longrightarrow>
   range_accents ks [0x61, 0x27, 0xF6]
   = (if [0x61, 0x27] \<in> set ks then [0xE1, 0xF6] else [0x61, 0x27, 0xF6])"
proof (induction ks)
  case Nil
  then show ?case by (simp add: range_accents_def)
next
  case (Cons k ks)
  then show ?case
    unfolding range_accents_Cons by (auto simp: example_steps(3) example_done)
qed

lemma example_start:
  "set ks \<subseteq> set (map fst accent_map) \<Longrightarrow>
   range_accents ks [0x61, 0x27, 0x6F, 0x3A]
   = (if [0x61, 0x27] \<in> set ks
      then (if [0x6F, 0x3A] \<in> set ks then [0xE1, 0xF6] else [0xE1, 0x6F, 0x3A])
      else (if [0x6F, 0x3A] \<in> set ks then [0x61, 0x27, 0xF6] else [0x61, 0x27, 0x6F, 0x3A]))"
proof (induction ks)
  case Nil
  then show ?case by (simp add: range_accents_def)
next
  case (Cons k ks)
  then show ?case
    unfolding range_accents_Cons
    by (auto simp: example_steps(1) example_a_done example_o_done)
qed

lemma a_key: "[0x61, 0x27] \<in> set (map fst accent_map)"
  by (simp add: accent_map_def asc_def)

text \<open>
  C6. Whatever the order in which the keys of the accent table are visited, the line
  U+3014 o : U+3015 becomes U+00F6, in \<open>replace_accents\<close> and in the whole loop body for
  every format name. And once the line has at least one bracketed segment, the table
  is applied to the whole line: no token of the table is left anywhere in the result,
  inside or outside the brackets. In the line a ' U+3014 o : U+3015 the token before
  the bracket is decoded as well, to U+00E1.
\<close>

theorem C6_accents:
  assumes "\<forall>i. key_order (ord i)"
  shows "replace_accents ord [0x3014, 0x6F, 0x3A, 0x3015] = [0xF6]
     \<and> preprocess (get_outfmt f) ord [0x3014, 0x6F, 0x3A, 0x3015] = ([0xF6], [])
     \<and> (FindAllStringSubmatch accent_exp line \<noteq> [] \<longrightarrow>
          (\<forall>k\<in>set (map fst accent_map). \<not> strings_Contains (replace_accents ord line) k))
     \<and> replace_accents ord [0x61, 0x27, 0x3014, 0x6F, 0x3A, 0x3015] = [0xE1, 0xF6]"
proof -
  have set0: "set (ord 0) = set (map fst accent_map)"
    using assms by (simp add: key_order_def)
  have "replace_accents ord [0x3014, 0x6F, 0x3A, 0x3015] = range_accents (ord 0) [0x6F, 0x3A]"
    by (simp add: replace_accents_def FindAllStringSubmatch_def accent_exp_def submatches_def
        push_def grow_def strings_Replace_def)
  also have "\<dots> = [0xF6]"
    using range_accents_o [of "ord 0"] set0 o_key by simp
  finally have a: "replace_accents ord [0x3014, 0x6F, 0x3A, 0x3015] = [0xF6]" .
  have "preprocess (get_outfmt f) ord [0x3014, 0x6F, 0x3A, 0x3015]
        = (replace_accents ord [0x3014, 0x6F, 0x3A, 0x3015], [])"
    by (simp add: preprocess_def strings_Trim_def replace_jis_def replace_ruby_def ruby_pass_def
        bouten_pass_def FindAllStringSubmatch_def jis_exp_def ruby_exp_def bouten_exp_def
        kanji_def push_def)
  with a have b: "preprocess (get_outfmt f) ord [0x3014, 0x6F, 0x3A, 0x3015] = ([0xF6], [])"
    by simp
  have c: "\<not> strings_Contains (replace_accents ord line) k"
    if "FindAllStringSubmatch accent_exp line \<noteq> []" "k \<in> set (map fst accent_map)" for k
  proof -
    from accents_loop_last [OF that(1)] obtain j s' where
      "replace_accents ord line = range_accents (ord j) s'"
      unfolding replace_accents_def by blast
    moreover have "set (ord j) = set (map fst accent_map)"
      using assms by (simp add: key_order_def)
    ultimately show ?thesis
      using that(2) range_accents_removes [of "ord j" k s'] by simp
  qed
  have "replace_accents ord [0x61, 0x27, 0x3014, 0x6F, 0x3A, 0x3015]
        = range_accents (ord 0) [0x61, 0x27, 0x6F, 0x3A]"
    by (simp add: replace_accents_def FindAllStringSubmatch_def accent_exp_def submatches_def
        push_def grow_def strings_Replace_def)
  also have "\<dots> = [0xE1, 0xF6]"
    using example_start [of "ord 0"] set0 o_key a_key by simp
  finally have d: "replace_accents ord [0x61, 0x27, 0x3014, 0x6F, 0x3A, 0x3015] = [0xE1, 0xF6]" .
  from a b c d show ?thesis by blast
qed

theorem C6_accents_witness:
  "replace_accents (\<lambda>i. map fst accent_map) [0x3014, 0x6F, 0x3A, 0x3015] = [0xF6]
   \<and> preprocess (get_outfmt (asc ''tex'')) (\<lambda>i. map fst accent_map) [0x3014, 0x6F, 0x3A, 0x3015]
     = ([0xF6], [])
   \<and> replace_accents (\<lambda>i. map fst accent_map) [0x61, 0x27, 0x3014, 0x6F, 0x3A, 0x3015]
     = [0xE1, 0xF6]
   \<and> \<not> strings_Contains
        (replace_accents (\<lambda>i. map fst accent_map) [0x65, 0x27, 0x3014, 0x6F, 0x3A, 0x3015])
        [0x65, 0x27]"
proof -
  have h: "\<forall>i::nat. key_order (map fst accent_map)"
    using key_order_table by simp
  have m: "FindAllStringSubmatch accent_exp [0x65, 0x27, 0x3014, 0x6F, 0x3A, 0x3015] \<noteq> []"
    by (simp add: FindAllStringSubmatch_def accent_exp_def push_def grow_def)
  have k: "[0x65, 0x27] \<in> set (map fst accent_map)"
    by (simp add: accent_map_def asc_def)
  show ?thesis
    using C6_accents [OF h, of "asc ''tex''" "[0x65, 0x27, 0x3014, 0x6F, 0x3A, 0x3015]"] m k
    by blast
qed

subsection \<open>Glyph annotations\<close>

lemmas jis_eval = replace_jis_def jis_step_def FindAllStringSubmatch_def FindStringSubmatch_def
  submatches_def jis_exp_def sub_exp_def digit_def strconv_Atoi_def jis_map_def push_def grow_def
  strings_Replace_def asc_def

text \<open>
  C4. On a line that is one annotation, the code does what the claim says: the
  annotation of level 3, plane 1, row 14, column 76 becomes U+5307 and nothing is
  logged; with row 99, column 99 the line is returned as it is and one warning is
  logged. But the numeric pattern is searched in the whole line, not in the annotation.
  On the line U+7B2C 1 U+6C34 U+6E96 1-11-11 followed by the first annotation, which
  holds exactly one annotation, whose description gives the code 311476 of the table,
  the code 111111 of the text before the annotation is looked up instead: the
  annotation is left in place and a warning is logged.
\<close>

theorem C4_replace_jis_rescans_line:
  "replace_jis ([0x203B, 0xFF3B, 0xFF03, 0x7B2C] @ asc ''3'' @ [0x6C34, 0x6E96] @ asc ''1-14-76''
                @ [0xFF3D])
     = ([0x5307], [])
   \<and> replace_jis ([0x203B, 0xFF3B, 0xFF03, 0x7B2C] @ asc ''3'' @ [0x6C34, 0x6E96] @ asc ''1-99-99''
                  @ [0xFF3D])
     = ([0x203B, 0xFF3B, 0xFF03, 0x7B2C] @ asc ''3'' @ [0x6C34, 0x6E96] @ asc ''1-99-99'' @ [0xFF3D],
        [JisNotImplemented 319999
           ([0x203B, 0xFF3B, 0xFF03, 0x7B2C] @ asc ''3'' @ [0x6C34, 0x6E96] @ asc ''1-99-99''
            @ [0xFF3D])])
   \<and> FindAllStringSubmatch jis_exp
        ([0x7B2C] @ asc ''1'' @ [0x6C34, 0x6E96] @ asc ''1-11-11''
         @ [0x203B, 0xFF3B, 0xFF03, 0x7B2C] @ asc ''3'' @ [0x6C34, 0x6E96] @ asc ''1-14-76''
         @ [0xFF3D])
     = [[[0x203B, 0xFF3B, 0xFF03, 0x7B2C] @ asc ''3'' @ [0x6C34, 0x6E96] @ asc ''1-14-76''
         @ [0xFF3D],
         [0x7B2C] @ asc ''3'' @ [0x6C34, 0x6E96] @ asc ''1-14-76'']]
   \<and> FindStringSubmatch sub_exp ([0x7B2C] @ asc ''3'' @ [0x6C34, 0x6E96] @ asc ''1-14-76'')
     = Some [[0x7B2C] @ asc ''3'' @ [0x6C34, 0x6E96] @ asc ''1-14-76'',
             asc ''3'', asc ''1'', asc ''14'', asc ''76'']
   \<and> map_of jis_map 311476 = Some [0x5307]
   \<and> replace_jis
        ([0x7B2C] @ asc ''1'' @ [0x6C34, 0x6E96] @ asc ''1-11-11''
         @ [0x203B, 0xFF3B, 0xFF03, 0x7B2C] @ asc ''3'' @ [0x6C34, 0x6E96] @ asc ''1-14-76''
         @ [0xFF3D])
     = ([0x7B2C] @ asc ''1'' @ [0x6C34, 0x6E96] @ asc ''1-11-11''
        @ [0x203B, 0xFF3B, 0xFF03, 0x7B2C] @ asc ''3'' @ [0x6C34, 0x6E96] @ asc ''1-14-76''
        @ [0xFF3D],
        [JisNotImplemented 111111
           ([0x203B, 0xFF3B, 0xFF03, 0x7B2C] @ asc ''3'' @ [0x6C34, 0x6E96] @ asc ''1-14-76''
            @ [0xFF3D])])"
  by (simp add: jis_eval)

text \<open>
  C5. An annotation whose description has no numeric pattern is skipped silently when
  it is alone on the line. When an annotation with a code follows it on the same line,
  the search in the whole line finds that code: the first annotation, described as
  U+6318, is replaced by the glyph of the second one (U+5307), and when the code of the
  second one is not in the table a warning is logged for the first one as well.
\<close>

theorem C5_replace_jis_borrows_code:
  "replace_jis ([0x203B, 0xFF3B, 0xFF03] @ asc ''U+6318'' @ [0xFF3D])
     = ([0x203B, 0xFF3B, 0xFF03] @ asc ''U+6318'' @ [0xFF3D], [])
   \<and> FindAllStringSubmatch jis_exp
        ([0x203B, 0xFF3B, 0xFF03] @ asc ''U+6318''
         @ [0xFF3D, 0x203B, 0xFF3B, 0xFF03, 0x7B2C] @ asc ''3'' @ [0x6C34, 0x6E96]
         @ asc ''1-14-76'' @ [0xFF3D])
     = [[[0x203B, 0xFF3B, 0xFF03] @ asc ''U+6318'' @ [0xFF3D], asc ''U+6318''],
        [[0x203B, 0xFF3B, 0xFF03, 0x7B2C] @ asc ''3'' @ [0x6C34, 0x6E96] @ asc ''1-14-76''
         @ [0xFF3D],
         [0x7B2C] @ asc ''3'' @ [0x6C34, 0x6E96] @ asc ''1-14-76'']]
   \<and> FindStringSubmatch sub_exp (asc ''U+6318'') = None
   \<and> replace_jis
        ([0x203B, 0xFF3B, 0xFF03] @ asc ''U+6318''
         @ [0xFF3D, 0x203B, 0xFF3B, 0xFF03, 0x7B2C] @ asc ''3'' @ [0x6C34, 0x6E96]
         @ asc ''1-14-76'' @ [0xFF3D])
     = ([0x5307, 0x5307], [])
   \<and> replace_jis
        ([0x203B, 0xFF3B, 0xFF03] @ asc ''U+6318''
         @ [0xFF3D, 0x203B, 0xFF3B, 0xFF03, 0x7B2C] @ asc ''3'' @ [0x6C34, 0x6E96]
         @ asc ''1-99-99'' @ [0xFF3D])
     = ([0x203B, 0xFF3B, 0xFF03] @ asc ''U+6318''
        @ [0xFF3D, 0x203B, 0xFF3B, 0xFF03, 0x7B2C] @ asc ''3'' @ [0x6C34, 0x6E96]
        @ asc ''1-99-99'' @ [0xFF3D],
        [JisNotImplemented 319999 ([0x203B, 0xFF3B, 0xFF03] @ asc ''U+6318'' @ [0xFF3D]),
         JisNotImplemented 319999
           ([0x203B, 0xFF3B, 0xFF03, 0x7B2C] @ asc ''3'' @ [0x6C34, 0x6E96] @ asc ''1-99-99''
            @ [0xFF3D])])"
  by (simp add: jis_eval)

subsection \<open>The joined document\<close>

text \<open>No step of the scanning loop brings a newline into a line.\<close>

lemma repl_runes: "c \<notin> set s \<Longrightarrow> c \<notin> set new \<Longrightarrow> c \<notin> set (repl s old new)"
proof (induction s old new rule: repl.induct)
  case (1 old new)
  then show ?case by simp
next
  case (2 x s old new)
  then have "c \<notin> set (drop (length old) (x # s))"
    by (meson in_set_dropD)
  with 2 show ?case by auto
qed

lemma Replace_runes:
  "c \<notin> set s \<Longrightarrow> c \<notin> set new \<Longrightarrow> c \<notin> set (strings_Replace s old new)"
  by (auto simp: strings_Replace_def repl_runes)

lemma Join_runes:
  "\<forall>x\<in>set xs. c \<notin> set x \<Longrightarrow> c \<notin> set sep \<Longrightarrow> c \<notin> set (strings_Join xs sep)"
  by (induction xs sep rule: strings_Join.induct) auto

lemma extra_args_newline: "\<forall>a\<in>set args. 0x0A \<notin> set a \<Longrightarrow> 0x0A \<notin> set (extra_args args)"
proof -
  assume a: "\<forall>a\<in>set args. 0x0A \<notin> set a"
  have "0x0A \<notin> set (strings_Join (map (\<lambda>a. asc ''string='' @ a) args) (asc '', ''))"
    using a by (intro Join_runes) (auto simp: asc_def)
  then show ?thesis by (simp add: extra_args_def asc_def)
qed

lemma Sprintf_newline:
  "0x0A \<notin> set f \<Longrightarrow> \<forall>a\<in>set args. 0x0A \<notin> set a \<Longrightarrow> 0x0A \<notin> set (fmt_Sprintf f args)"
proof (induction f args rule: fmt_Sprintf.induct)
  case (1 args)
  then show ?case by (simp add: extra_args_newline)
next
  case (2 c args)
  then show ?case by (auto simp: extra_args_newline asc_def)
next
  case (3 c v f args)
  then show ?case by (cases args) (auto simp: asc_def)
qed

lemma set_concat_grow: "set (concat (grow x segs)) = insert x (set (concat segs))"
  by (cases segs) (auto simp: grow_def)

lemma mtch_runes: "mtch its s = Some segs \<Longrightarrow> set (concat segs) \<subseteq> set s"
proof (induction its s arbitrary: segs rule: mtch.induct)
  case (1 s)
  then show ?case by simp
next
  case (2 l its s)
  from "2.prems" obtain r where p: "prefix l s" and r: "mtch its (drop (length l) s) = Some r" "segs = l # r"
    by (auto simp: push_def split: if_splits)
  from "2.IH" [OF p r(1)] have "set (concat r) \<subseteq> set s"
    by (meson in_set_dropD subset_iff)
  moreover have "set l \<subseteq> set s" using p by (rule set_mono_prefix)
  ultimately show ?case using r(2) by simp
next
  case (3 p its)
  then show ?case by simp
next
  case (4 p its x xs)
  then show ?case by (fastforce simp: push_def split: if_splits)
next
  case (5 p its)
  then show ?case by (fastforce simp: push_def)
next
  case (6 p its x xs)
  then show ?case by (fastforce simp: push_def split: if_splits option.splits)
next
  case (7 p its)
  then show ?case by simp
next
  case (8 p its x xs)
  from "8.prems" obtain r where r: "p x" "mtch (Star p # its) xs = Some r" "segs = grow x r"
    by (auto split: if_splits)
  from "8.IH" [OF r(1,2)] have "insert x (set (concat r)) \<subseteq> set (x # xs)"
    by auto
  then show ?case
    unfolding r(3) set_concat_grow .
next
  case (9 p its)
  then show ?case by (fastforce simp: push_def)
next
  case (10 p its x xs)
  show ?case
  proof (cases "p x")
    case False
    with 10 show ?thesis by (fastforce simp: push_def)
  next
    case True
    show ?thesis
    proof (cases "mtch (Star p # its) xs")
      case None
      with 10 True show ?thesis by (fastforce simp: push_def)
    next
      case (Some r)
      with "10.prems" True have segs: "segs = grow x r" by simp
      from "10.IH"(1) [OF True Some] have "insert x (set (concat r)) \<subseteq> set (x # xs)"
        by auto
      then show ?thesis
        unfolding segs set_concat_grow .
    qed
  qed
qed

lemma find_all_runes: "segs \<in> set (find_all its s) \<Longrightarrow> set (concat segs) \<subseteq> set s"
proof (induction its s rule: find_all.induct)
  case (1 its)
  then show ?case by simp
next
  case (2 its c s)
  show ?case
  proof (cases "mtch its (c # s)")
    case None
    with 2 show ?thesis by auto
  next
    case (Some m)
    with "2.prems" consider "segs = m"
      | "segs \<in> set (find_all its (drop (max 1 (length (concat m))) (c # s)))" by auto
    then show ?thesis
    proof cases
      case 1
      with Some show ?thesis using mtch_runes by blast
    next
      case 2
      with "2.IH"(2) [OF Some] have "set (concat segs) \<subseteq> set (drop (max 1 (length (concat m))) (c # s))"
        by blast
      then show ?thesis by (meson in_set_dropD subset_iff)
    qed
  qed
qed

lemma submatches_runes: "x \<in> set (submatches gs segs) \<Longrightarrow> set x \<subseteq> set (concat segs)"
  by (auto simp: submatches_def dest!: in_set_takeD in_set_dropD)

lemma FindAll_runes:
  assumes "m \<in> set (FindAllStringSubmatch re s)"
  shows "length m = Suc (length (snd re)) \<and> (\<forall>x\<in>set m. set x \<subseteq> set s)"
proof -
  from assms obtain segs where
    segs: "segs \<in> set (find_all (fst re) s)" "m = submatches (snd re) segs"
    by (auto simp: FindAllStringSubmatch_def)
  have "set x \<subseteq> set s" if "x \<in> set m" for x
    using submatches_runes [of x "snd re" segs] find_all_runes [OF segs(1)] that segs(2)
    by blast
  moreover have "length m = Suc (length (snd re))"
    by (simp add: segs(2) submatches_def)
  ultimately show ?thesis by blast
qed

lemma foldl_runes:
  "\<forall>m\<in>set ms. \<forall>s. c \<notin> set s \<longrightarrow> c \<notin> set (f s m) \<Longrightarrow> c \<notin> set s \<Longrightarrow> c \<notin> set (foldl f s ms)"
  by (induction ms arbitrary: s) auto

lemma jis_table_newline: "map_of jis_map n = Some v \<Longrightarrow> 0x0A \<notin> set v"
proof -
  assume "map_of jis_map n = Some v"
  then have "(n, v) \<in> set jis_map" by (rule map_of_SomeD)
  moreover have "list_all (\<lambda>(n, v). 0x0A \<notin> set v) jis_map"
    by (simp add: jis_map_def)
  ultimately show ?thesis by (auto simp: list_all_iff)
qed

lemma accent_table_newline: "0x0A \<notin> set (index_map accent_map k)"
proof (cases "map_of accent_map k")
  case None
  then show ?thesis by (simp add: index_map_def)
next
  case (Some v)
  then have "(k, v) \<in> set accent_map" by (rule map_of_SomeD)
  moreover have "list_all (\<lambda>(k, v). 0x0A \<notin> set v) accent_map"
    by (simp add: accent_map_def)
  ultimately show ?thesis using Some by (auto simp: list_all_iff index_map_def)
qed

lemma jis_step_newline: "0x0A \<notin> set (fst st) \<Longrightarrow> 0x0A \<notin> set (fst (jis_step st m))"
  by (cases st)
    (auto simp: jis_step_def Let_def Replace_runes jis_table_newline split: option.splits)

lemma foldl_fst_newline:
  "(\<And>st m. 0x0A \<notin> set (fst st) \<Longrightarrow> 0x0A \<notin> set (fst (f st m)))
   \<Longrightarrow> 0x0A \<notin> set (fst st) \<Longrightarrow> 0x0A \<notin> set (fst (foldl f st ms))"
  by (induction ms arbitrary: st) auto

lemma replace_jis_newline: "0x0A \<notin> set s \<Longrightarrow> 0x0A \<notin> set (fst (replace_jis s))"
  unfolding replace_jis_def by (rule foldl_fst_newline) (simp_all add: jis_step_newline)

lemma ruby_pass_newline:
  assumes "0x0A \<notin> set s" "0x0A \<notin> set (ruby of')"
  shows "0x0A \<notin> set (ruby_pass of' s)"
  unfolding ruby_pass_def
proof (rule foldl_runes [OF _ assms(1)], intro ballI allI impI)
  fix m and t :: gostring
  assume m: "m \<in> set (FindAllStringSubmatch ruby_exp s)" and t: "0x0A \<notin> set t"
  from FindAll_runes [OF m] have "length m = 3" "\<forall>x\<in>set m. set x \<subseteq> set s"
    by (simp_all add: ruby_exp_def)
  then have "set (m ! 1) \<subseteq> set s" "set (m ! 2) \<subseteq> set s"
    by (simp_all add: nth_mem)
  with assms have "0x0A \<notin> set (fmt_Sprintf (ruby of') [m ! 1, m ! 2])"
    by (intro Sprintf_newline) auto
  with t show "0x0A \<notin> set (strings_Replace t (m ! 0) (fmt_Sprintf (ruby of') [m ! 1, m ! 2]))"
    by (rule Replace_runes)
qed

lemma bouten_pass_newline:
  assumes "0x0A \<notin> set s" "0x0A \<notin> set (ruby of')"
  shows "0x0A \<notin> set (bouten_pass of' s)"
  unfolding bouten_pass_def
proof (rule foldl_runes [OF _ assms(1)], intro ballI allI impI)
  fix m and t :: gostring
  assume m: "m \<in> set (FindAllStringSubmatch bouten_exp s)" and t: "0x0A \<notin> set t"
  from FindAll_runes [OF m] have "length m = 2" "\<forall>x\<in>set m. set x \<subseteq> set s"
    by (simp_all add: bouten_exp_def)
  then have "set (m ! 1) \<subseteq> set s"
    by (simp_all add: nth_mem)
  moreover have "0x0A \<notin> set (strings_Repeat [0xFE45] n)" for n
    by (simp add: strings_Repeat_def)
  ultimately have "0x0A \<notin> set (fmt_Sprintf (ruby of') [m ! 1, strings_Repeat [0xFE45] (length (m ! 1))])"
    using assms by (intro Sprintf_newline) auto
  with t show "0x0A \<notin> set (let bouten = strings_Repeat [0xFE45] (length (m ! 1))
       in strings_Replace t (m ! 1 @ m ! 0) (fmt_Sprintf (ruby of') [m ! 1, bouten]))"
    by (simp add: Replace_runes)
qed

lemma range_accents_newline: "0x0A \<notin> set s \<Longrightarrow> 0x0A \<notin> set (range_accents keys s)"
  unfolding range_accents_def
  by (rule foldl_runes) (auto simp: Replace_runes accent_table_newline)

lemma accents_loop_newline:
  "\<forall>m\<in>set ms. length m = 2 \<and> 0x0A \<notin> set (m ! 1) \<Longrightarrow> 0x0A \<notin> set s
   \<Longrightarrow> 0x0A \<notin> set (accents_loop ord i ms s)"
proof (induction ms arbitrary: i s)
  case Nil
  then show ?case by simp
next
  case (Cons m ms)
  then have "0x0A \<notin> set (range_accents (ord i) (strings_Replace s (m ! 0) (m ! 1)))"
    by (intro range_accents_newline Replace_runes) auto
  with Cons show ?case by simp
qed

lemma replace_accents_newline:
  assumes "0x0A \<notin> set s"
  shows "0x0A \<notin> set (replace_accents ord s)"
  unfolding replace_accents_def
proof (rule accents_loop_newline [OF _ assms], intro ballI)
  fix m
  assume m: "m \<in> set (FindAllStringSubmatch accent_exp s)"
  from FindAll_runes [OF m] have "length m = 2" "\<forall>x\<in>set m. set x \<subseteq> set s"
    by (simp_all add: accent_exp_def)
  then have "length m = 2" "set (m ! 1) \<subseteq> set s"
    by (simp_all add: nth_mem)
  with assms show "length m = 2 \<and> 0x0A \<notin> set (m ! 1)"
    by auto
qed

lemma Trim_runes: "c \<notin> set s \<Longrightarrow> c \<notin> set (strings_Trim s cutset)"
  by (auto simp: strings_Trim_def dest!: set_dropWhileD)

lemma preprocess_newline:
  assumes "0x0A \<notin> set line" "0x0A \<notin> set (ruby of')"
  shows "0x0A \<notin> set (fst (preprocess of' ord line))"
proof -
  obtain l logged where rj: "replace_jis (strings_Trim line [0x3000]) = (l, logged)"
    by (cases "replace_jis (strings_Trim line [0x3000])")
  have "0x0A \<notin> set (fst (replace_jis (strings_Trim line [0x3000])))"
    using assms(1) by (intro replace_jis_newline Trim_runes)
  then have "0x0A \<notin> set l"
    by (simp add: rj)
  then have "0x0A \<notin> set (replace_ruby l of')"
    unfolding replace_ruby_def using assms(2) by (intro bouten_pass_newline ruby_pass_newline)
  then have "0x0A \<notin> set (replace_accents ord (replace_ruby l of'))"
    by (rule replace_accents_newline)
  then show ?thesis
    by (simp add: preprocess_def rj)
qed

lemma get_outfmt_ruby_newline: "0x0A \<notin> set (ruby (get_outfmt f))"
  by (simp add: get_outfmt_def asc_def)

lemma splt_line: "c \<notin> set a \<Longrightarrow> splt (a @ c # r) [c] = a # splt r [c]"
  by (induction a) auto

lemma splt_last_line: "c \<notin> set a \<Longrightarrow> splt a [c] = [a]"
  by (induction a) auto

lemma splt_Join:
  "ls \<noteq> [] \<Longrightarrow> \<forall>l\<in>set ls. c \<notin> set l \<Longrightarrow> splt (strings_Join ls [c, c]) [c] = blank_between ls"
proof (induction ls "[c, c]" rule: strings_Join.induct)
  case 1
  then show ?case by simp
next
  case (2 x)
  then show ?case by (simp add: splt_last_line)
next
  case (3 x y r)
  then have "splt (strings_Join (y # r) [c, c]) [c] = blank_between (y # r)" by simp
  moreover have "splt (x @ c # c # strings_Join (y # r) [c, c]) [c] = x # [] # splt (strings_Join (y # r) [c, c]) [c]"
    using 3(3) by (simp add: splt_line)
  ultimately show ?case by simp
qed

subsection \<open>The shape of a match\<close>

lemma conforms_grow:
  "list_all2 conforms (Star p # its) segs \<Longrightarrow> p x
   \<Longrightarrow> list_all2 conforms (Plus p # its) (grow x segs) \<and> list_all2 conforms (Star p # its) (grow x segs)"
  by (cases segs) (auto simp: grow_def)

lemma mtch_shape: "mtch its s = Some segs \<Longrightarrow> list_all2 conforms its segs"
proof (induction its s arbitrary: segs rule: mtch.induct)
  case (1 s)
  then show ?case by simp
next
  case (2 l its s)
  then show ?case by (auto simp: push_def split: if_splits)
next
  case (3 p its)
  then show ?case by simp
next
  case (4 p its x xs)
  then show ?case by (auto simp: push_def split: if_splits)
next
  case (5 p its)
  then show ?case by (auto simp: push_def)
next
  case (6 p its x xs)
  then show ?case by (auto simp: push_def split: if_splits option.splits)
next
  case (7 p its)
  then show ?case by simp
next
  case (8 p its x xs)
  from "8.prems" obtain r where r: "p x" "mtch (Star p # its) xs = Some r" "segs = grow x r"
    by (auto split: if_splits)
  from "8.IH" [OF r(1,2)] r(1) show ?case
    unfolding r(3) using conforms_grow by blast
next
  case (9 p its)
  then show ?case by (auto simp: push_def)
next
  case (10 p its x xs)
  show ?case
  proof (cases "p x")
    case False
    with 10 show ?thesis by (auto simp: push_def)
  next
    case True
    show ?thesis
    proof (cases "mtch (Star p # its) xs")
      case None
      with 10 True show ?thesis by (auto simp: push_def)
    next
      case (Some r)
      with "10.prems" True have segs: "segs = grow x r" by simp
      from "10.IH"(1) [OF True Some] True show ?thesis
        unfolding segs using conforms_grow by blast
    qed
  qed
qed

lemma find_all_matches:
  "segs \<in> set (find_all its s) \<Longrightarrow> \<exists>t. suffix t s \<and> mtch its t = Some segs"
proof (induction its s rule: find_all.induct)
  case (1 its)
  then show ?case by simp
next
  case (2 its c s)
  show ?case
  proof (cases "mtch its (c # s)")
    case None
    with 2 obtain t where "suffix t s" "mtch its t = Some segs" by auto
    then show ?thesis by (auto simp: suffix_Cons)
  next
    case (Some m)
    with "2.prems" consider "segs = m"
      | "segs \<in> set (find_all its (drop (max 1 (length (concat m))) (c # s)))" by auto
    then show ?thesis
    proof cases
      case 1
      with Some show ?thesis by auto
    next
      case 2
      with "2.IH"(2) [OF Some] obtain t where
        t: "suffix t (drop (max 1 (length (concat m))) (c # s))" "mtch its t = Some segs"
        by blast
      from t(1) have "suffix t (c # s)"
        using suffix_drop suffix_order.trans by blast
      with t(2) show ?thesis by blast
    qed
  qed
qed


lemma hdr_match_level:
  assumes "m \<in> set (FindAllStringSubmatch hdr_exp s)"
  shows "m ! 2 = [0x5927] \<or> m ! 2 = [0x4E2D] \<or> m ! 2 = [0x5C0F]"
proof -
  from assms obtain segs where
    segs: "segs \<in> set (find_all (fst hdr_exp) s)" "m = submatches (snd hdr_exp) segs"
    by (auto simp: FindAllStringSubmatch_def)
  from find_all_matches [OF segs(1)] obtain t where "mtch (fst hdr_exp) t = Some segs"
    by blast
  from mtch_shape [OF this] obtain s0 s1 s2 s3 s4 s5 s6 where
    sh: "segs = [s0, s1, s2, s3, s4, s5, s6]" "length s5 = 1"
      "list_all (\<lambda>c. c = 0x5927 \<or> c = 0x4E2D \<or> c = 0x5C0F) s5"
    by (auto simp: hdr_exp_def list_all2_Cons1)
  from sh(2) obtain c where c: "s5 = [c]"
    by (cases s5) auto
  have "m ! 2 = s5"
    by (simp add: segs(2) sh(1) submatches_def hdr_exp_def)
  with c sh(3) show ?thesis by auto
qed

subsection \<open>A ruby annotation in plain text\<close>

lemma mtch_Star_stop:
  "l0 \<notin> set v \<Longrightarrow> \<not> p y \<Longrightarrow> y \<noteq> l0
   \<Longrightarrow> mtch (Star p # Lit (l0 # l) # its) (v @ y # rest) = None"
  by (induction v) (simp_all add: push_def)

lemma mtch_Plus_stop:
  "l0 \<notin> set v \<Longrightarrow> \<not> p y \<Longrightarrow> y \<noteq> l0
   \<Longrightarrow> mtch (Plus p # Lit (l0 # l) # its) (v @ y # rest) = None"
  by (cases v) (simp_all add: mtch_Star_stop)

lemma mtch_Opt_None:
  assumes "mtch its w = None"
    and "\<And>w'. w = c0 # w' \<Longrightarrow> mtch its w' = None"
  shows "mtch (Opt (\<lambda>c. c = c0) # its) w = None"
  using assms by (cases w) (auto simp: push_def)

lemma find_all_skip:
  "(\<And>u. u \<noteq> [] \<Longrightarrow> suffix u pre \<Longrightarrow> mtch its (u @ r) = None)
   \<Longrightarrow> find_all its (pre @ r) = find_all its r"
proof (induction pre)
  case Nil
  then show ?case by simp
next
  case (Cons x pre)
  have "mtch its ((x # pre) @ r) = None"
    by (rule Cons.prems) simp_all
  moreover have "find_all its (pre @ r) = find_all its r"
    by (rule Cons.IH) (simp add: Cons.prems suffix_Cons)
  ultimately show ?case by simp
qed

lemma ruby_needs_open: "0x300A \<notin> set s \<Longrightarrow> find_all (fst ruby_exp) s = []"
proof (rule ccontr)
  assume s: "0x300A \<notin> set s" and "find_all (fst ruby_exp) s \<noteq> []"
  then obtain segs where "segs \<in> set (find_all (fst ruby_exp) s)"
    by (cases "find_all (fst ruby_exp) s") auto
  from find_all_runes [OF this] find_all_matches [OF this] obtain t where
    sub: "set (concat segs) \<subseteq> set s" and "mtch (fst ruby_exp) t = Some segs"
    by blast
  from mtch_shape [OF this(2)] have "[0x300A] \<in> set segs"
    by (auto simp: ruby_exp_def list_all2_Cons1)
  then have "0x300A \<in> set (concat segs)"
    by (auto intro: bexI [of _ "[0x300A]"])
  with sub s show False by blast
qed

lemma ruby_mtch_here:
  assumes "base \<noteq> []" "\<forall>c\<in>set base. kanji c" "reading \<noteq> []" "0x300B \<notin> set reading"
    and "bar = [] \<or> bar = [0xFF5C]"
  shows "mtch (fst ruby_exp) (bar @ base @ [0x300A] @ reading @ [0x300B] @ post)
         = Some [bar, base, [0x300A], reading, [0x300B]]"
proof -
  have close: "mtch [Lit [0x300B]] (0x300B # post) = Some [[0x300B]]"
    by (simp add: push_def)
  have rd: "mtch [Plus (\<lambda>c. c \<noteq> 0x300B), Lit [0x300B]] (reading @ 0x300B # post)
            = Some [reading, [0x300B]]"
    using assms(3,4) by (intro mtch_Plus_run close) auto
  have opn: "mtch [Lit [0x300A], Plus (\<lambda>c. c \<noteq> 0x300B), Lit [0x300B]]
               (0x300A # reading @ 0x300B # post) = Some [[0x300A], reading, [0x300B]]"
    using rd by (simp add: push_def)
  have bs: "mtch [Plus kanji, Lit [0x300A], Plus (\<lambda>c. c \<noteq> 0x300B), Lit [0x300B]]
              (base @ 0x300A # reading @ 0x300B # post) = Some [base, [0x300A], reading, [0x300B]]"
    using assms(1,2) by (intro mtch_Plus_run opn) (auto simp: kanji_def)
  obtain b bs' where b: "base = b # bs'"
    using assms(1) by (cases base) auto
  with assms(2) have "kanji b" by simp
  then have nb: "b \<noteq> 0xFF5C" by (auto simp: kanji_def)
  from assms(5) show ?thesis
  proof
    assume "bar = []"
    with nb bs show ?thesis by (simp add: ruby_exp_def b push_def)
  next
    assume "bar = [0xFF5C]"
    with bs show ?thesis by (simp add: ruby_exp_def)
  qed
qed

lemma ruby_None_before:
  assumes "0x300A \<notin> set pre" "u \<noteq> []" "suffix u pre"
    and "bar = [] \<or> bar = [0xFF5C]"
    and "bar = [] \<longrightarrow> \<not> kanji (last pre) \<and> last pre \<noteq> 0xFF5C"
  shows "mtch (fst ruby_exp) (u @ bar @ base @ r) = None"
proof -
  let ?its = "[Plus kanji, Lit [0x300A], Plus (\<lambda>c. c \<noteq> 0x300B), Lit [0x300B]]"
  from assms(1,3) have nu: "0x300A \<notin> set u"
    by (meson set_mono_suffix subsetD)
  have lst: "last u = last pre"
    using assms(2,3) by (auto simp: suffix_def)
  have stop: "mtch ?its (w @ bar @ base @ r) = None"
    if w: "0x300A \<notin> set w" "bar = [] \<longrightarrow> w \<noteq> [] \<and> last w = last pre" for w
  proof (cases "bar = []")
    case True
    with w have wn: "w \<noteq> []" "last w = last pre" by simp_all
    then have "w = butlast w @ [last pre]"
      by (metis append_butlast_last_id)
    then have eq: "w @ bar @ base @ r = butlast w @ last pre # (base @ r)"
      using True by (metis append_Cons append_Nil append_assoc)
    have "0x300A \<notin> set (butlast w)"
      using w(1) by (meson in_set_butlastD)
    moreover have "last pre \<noteq> 0x300A"
      using wn w(1) by (metis last_in_set)
    ultimately show ?thesis
      unfolding eq using assms(5) True by (intro mtch_Plus_stop) auto
  next
    case False
    with assms(4) have "bar = [0xFF5C]" by simp
    then have eq: "w @ bar @ base @ r = w @ 0xFF5C # (base @ r)" by simp
    show ?thesis
      unfolding eq using w(1) by (intro mtch_Plus_stop) (auto simp: kanji_def)
  qed
  have one: "mtch ?its (u @ bar @ base @ r) = None"
    using nu lst assms(2) by (intro stop) auto
  have two: "mtch ?its w' = None" if "u @ bar @ base @ r = 0xFF5C # w'" for w'
  proof -
    from assms(2) obtain a u' where au: "u = a # u'"
      by (cases u) auto
    with that have u': "u = 0xFF5C # u'" "w' = u' @ bar @ base @ r"
      by simp_all
    have "bar = [] \<longrightarrow> u' \<noteq> [] \<and> last u' = last pre"
    proof
      assume b: "bar = []"
      with assms(5) lst have "last u \<noteq> 0xFF5C" by simp
      with u'(1) have "u' \<noteq> []" by auto
      with u'(1) lst show "u' \<noteq> [] \<and> last u' = last pre" by auto
    qed
    moreover have "0x300A \<notin> set u'" using nu u'(1) by simp
    ultimately show ?thesis
      unfolding u'(2) by (intro stop) auto
  qed
  have "mtch (Opt (\<lambda>c. c = 0xFF5C) # ?its) (u @ bar @ base @ r) = None"
    using one two by (rule mtch_Opt_None)
  then show ?thesis by (simp add: ruby_exp_def)
qed

lemma ruby_find_context:
  assumes "base \<noteq> []" "\<forall>c\<in>set base. kanji c" "reading \<noteq> []" "0x300B \<notin> set reading"
    and "0x300A \<notin> set pre" "0x300A \<notin> set post"
    and "bar = [] \<or> bar = [0xFF5C]"
    and "bar = [] \<longrightarrow> pre = [] \<or> \<not> kanji (last pre) \<and> last pre \<noteq> 0xFF5C"
  shows "FindAllStringSubmatch ruby_exp (pre @ bar @ base @ [0x300A] @ reading @ [0x300B] @ post)
         = [[bar @ base @ [0x300A] @ reading @ [0x300B], base, reading]]"
proof -
  let ?seg = "bar @ base @ [0x300A] @ reading @ [0x300B]"
  let ?segs = "[bar, base, [0x300A], reading, [0x300B]]"
  have here: "mtch (fst ruby_exp) (?seg @ post) = Some ?segs"
    using ruby_mtch_here [OF assms(1-4,7), of post] by simp
  have ne: "?seg @ post \<noteq> []" by simp
  then obtain c s where cs: "?seg @ post = c # s"
    by (cases "?seg @ post") auto
  have "find_all (fst ruby_exp) (?seg @ post)
        = ?segs # find_all (fst ruby_exp) (drop (max 1 (length (concat ?segs))) (?seg @ post))"
    using here unfolding cs by simp
  also have "drop (max 1 (length (concat ?segs))) (?seg @ post) = post"
    by simp
  also have "find_all (fst ruby_exp) post = []"
    using assms(6) by (rule ruby_needs_open)
  finally have found: "find_all (fst ruby_exp) (?seg @ post) = [?segs]" .
  have "find_all (fst ruby_exp) (pre @ ?seg @ post) = find_all (fst ruby_exp) (?seg @ post)"
  proof (rule find_all_skip)
    fix u
    assume u: "u \<noteq> []" "suffix u pre"
    then have "pre \<noteq> []" by auto
    with assms(8) have "bar = [] \<longrightarrow> \<not> kanji (last pre) \<and> last pre \<noteq> 0xFF5C"
      by simp
    from ruby_None_before [OF assms(5) u assms(7) this, of base "[0x300A] @ reading @ [0x300B] @ post"]
    show "mtch (fst ruby_exp) (u @ ?seg @ post) = None"
      by simp
  qed
  with found have "find_all (fst ruby_exp) (pre @ ?seg @ post) = [?segs]"
    by simp
  then have "FindAllStringSubmatch ruby_exp (pre @ ?seg @ post) = [[?seg, base, reading]]"
    by (simp add: FindAllStringSubmatch_def submatches_def ruby_exp_def)
  then show ?thesis by simp
qed

lemma Contains_runes: "strings_Contains s sub \<Longrightarrow> set sub \<subseteq> set s"
proof (induction s)
  case Nil
  then show ?case by simp
next
  case (Cons a s)
  from Cons.prems consider "prefix sub (a # s)" | "strings_Contains s sub"
    by auto
  then show ?case
  proof cases
    case 1
    then show ?thesis by (rule set_mono_prefix)
  next
    case 2
    with Cons.IH show ?thesis by auto
  qed
qed

lemma repl_first:
  "old \<noteq> [] \<Longrightarrow> (\<And>u. u \<noteq> [] \<Longrightarrow> suffix u pre \<Longrightarrow> \<not> prefix old (u @ old @ post))
   \<Longrightarrow> repl (pre @ old @ post) old new = pre @ new @ repl post old new"
proof (induction pre)
  case Nil
  then obtain c s where cs: "old @ post = c # s"
    by (cases "old @ post") auto
  have "repl (c # s) old new = new @ repl (drop (length old) (c # s)) old new"
    using Nil(1) cs by (metis prefixI repl.simps(2))
  then show ?case
    using cs by (metis append_Nil append_eq_conv_conj)
next
  case (Cons x pre)
  have "\<not> prefix old ((x # pre) @ old @ post)"
    by (rule Cons.prems(2)) simp_all
  moreover have "repl (pre @ old @ post) old new = pre @ new @ repl post old new"
    by (rule Cons.IH [OF Cons.prems(1)]) (simp add: Cons.prems(2) suffix_Cons)
  ultimately show ?case by simp
qed

lemma not_prefix_later:
  assumes "l0 \<notin> set xs" "l0 \<notin> set u" "u \<noteq> []"
  shows "\<not> prefix (xs @ l0 # ys) (u @ xs @ l0 # ys @ post)"
proof
  assume "prefix (xs @ l0 # ys) (u @ xs @ l0 # ys @ post)"
  then obtain z where z: "u @ xs @ l0 # ys @ post = (xs @ l0 # ys) @ z"
    by (auto simp: prefix_def)
  have "takeWhile (\<lambda>c. c \<noteq> l0) ((u @ xs) @ l0 # ys @ post) = u @ xs"
    using assms(1,2) by (intro takeWhile_tail [THEN trans]) auto
  moreover have "takeWhile (\<lambda>c. c \<noteq> l0) (xs @ l0 # (ys @ z)) = xs"
    using assms(1) by (intro takeWhile_tail [THEN trans]) auto
  ultimately have "u @ xs = xs"
    using z by simp
  with assms(3) show False by simp
qed

lemma Replace_in_context:
  assumes "l0 \<notin> set xs" "l0 \<notin> set pre" "l0 \<notin> set post"
  shows "strings_Replace (pre @ (xs @ l0 # ys) @ post) (xs @ l0 # ys) new = pre @ new @ post"
proof (cases "xs @ l0 # ys = new")
  case True
  then show ?thesis by (simp add: strings_Replace_def)
next
  case False
  let ?old = "xs @ l0 # ys"
  have "repl (pre @ ?old @ post) ?old new = pre @ new @ repl post ?old new"
  proof (rule repl_first)
    show "?old \<noteq> []" by simp
    fix u
    assume u: "u \<noteq> []" "suffix u pre"
    with assms(2) have "l0 \<notin> set u"
      by (meson set_mono_suffix subsetD)
    from not_prefix_later [OF assms(1) this u(1), of ys post]
    show "\<not> prefix ?old (u @ ?old @ post)" by simp
  qed
  moreover have "\<not> strings_Contains post ?old"
    using assms(3) Contains_runes [of post ?old] by auto
  then have "repl post ?old new = post"
    by (rule repl_absent)
  ultimately show ?thesis
    using False by (simp add: strings_Replace_def)
qed

lemma ruby_pass_context:
  assumes "base \<noteq> []" "\<forall>c\<in>set base. kanji c" "reading \<noteq> []" "0x300B \<notin> set reading"
    and "0x300A \<notin> set pre" "0x300A \<notin> set post"
    and "bar = [] \<or> bar = [0xFF5C]"
    and "bar = [] \<longrightarrow> pre = [] \<or> \<not> kanji (last pre) \<and> last pre \<noteq> 0xFF5C"
  shows "ruby_pass of' (pre @ bar @ base @ [0x300A] @ reading @ [0x300B] @ post)
         = pre @ fmt_Sprintf (ruby of') [base, reading] @ post"
proof -
  have "0x300A \<notin> set (bar @ base)"
    using assms(2,7) by (auto simp: kanji_def)
  from Replace_in_context [OF this assms(5,6), of "reading @ [0x300B]"]
  have "strings_Replace (pre @ bar @ base @ [0x300A] @ reading @ [0x300B] @ post)
          (bar @ base @ [0x300A] @ reading @ [0x300B]) new = pre @ new @ post" for new
    by simp
  then show ?thesis
    unfolding ruby_pass_def ruby_find_context [OF assms] by simp
qed






subsection \<open>Ruby annotations\<close>




subsection \<open>Unknown format names\<close>

lemma foldl_agree:
  "(\<And>a x. x \<in> set xs \<Longrightarrow> f a x = g a x) \<Longrightarrow> foldl f a xs = foldl g a xs"
  by (induction xs arbitrary: a) simp_all

lemma foldl_logged:
  "(\<And>s lg x. x \<in> set xs \<Longrightarrow> f (s, lg) x = (g s x, lg))
   \<Longrightarrow> foldl f (s, lg) xs = (foldl g s xs, lg)"
  by (induction xs arbitrary: s) simp_all

lemma Sprintf_empty_two:
  "fmt_Sprintf [] [a, b] = asc ''%!(EXTRA string='' @ a @ asc '', string='' @ b @ asc '')''"
  by (simp add: extra_args_def asc_def)

lemma Sprintf_empty_one: "fmt_Sprintf [] [a] = asc ''%!(EXTRA string='' @ a @ asc '')''"
  by (simp add: extra_args_def asc_def)

lemma needs_first_Lit:
  assumes "c \<in> set l" "c \<notin> set s"
  shows "find_all (Lit l # its) s = []"
proof (rule ccontr)
  assume "find_all (Lit l # its) s \<noteq> []"
  then obtain segs where "segs \<in> set (find_all (Lit l # its) s)"
    by (cases "find_all (Lit l # its) s") auto
  from find_all_runes [OF this] find_all_matches [OF this] obtain t where
    sub: "set (concat segs) \<subseteq> set s" and "mtch (Lit l # its) t = Some segs"
    by blast
  from mtch_shape [OF this(2)] have "l \<in> set segs"
    by (auto simp: list_all2_Cons1)
  with assms(1) have "c \<in> set (concat segs)"
    by auto
  with sub assms(2) show False by blast
qed

lemma find_one_Lit_Plus_Lit:
  assumes "l0 \<notin> set pre" "l0 \<notin> set post" "t \<noteq> []" "\<forall>c\<in>set t. p c" "\<not> p y"
  shows "find_all [Lit (l0 # l), Plus p, Lit (y # k)] (pre @ (l0 # l) @ t @ (y # k) @ post)
         = [[l0 # l, t, y # k]]"
proof -
  let ?its = "[Lit (l0 # l), Plus p, Lit (y # k)]"
  let ?rest = "(l0 # l) @ t @ (y # k) @ post"
  have "mtch [Lit (y # k)] (y # k @ post) = Some [y # k]"
    by (simp add: push_def)
  then have "mtch [Plus p, Lit (y # k)] (t @ y # k @ post) = Some [t, y # k]"
    using assms(3-5) by (intro mtch_Plus_run) auto
  then have here: "mtch ?its ?rest = Some [l0 # l, t, y # k]"
    by (simp add: push_def)
  have "find_all ?its ?rest
        = [l0 # l, t, y # k] # find_all ?its (drop (max 1 (length (concat [l0 # l, t, y # k]))) ?rest)"
    using here by simp
  also have "drop (max 1 (length (concat [l0 # l, t, y # k]))) ?rest = post"
    by simp
  also have "find_all ?its post = []"
    using assms(2) by (rule find_all_no_first_rune)
  finally have found: "find_all ?its ?rest = [[l0 # l, t, y # k]]" .
  have "find_all ?its (pre @ ?rest) = find_all ?its ?rest"
  proof (rule find_all_skip)
    fix u
    assume u: "u \<noteq> []" "suffix u pre"
    with assms(1) have "hd u \<noteq> l0"
      by (metis hd_in_set set_mono_suffix subsetD)
    with u(1) show "mtch ?its (u @ ?rest) = None"
      by (cases u) auto
  qed
  with found show ?thesis by simp
qed

lemma bouten_pass_context:
  assumes "t \<noteq> []" "0x300D \<notin> set t" "0xFF3B \<notin> set t" "0xFF3B \<notin> set pre" "0xFF3B \<notin> set post"
  shows "bouten_pass of'
           (pre @ t @ [0xFF3B, 0xFF03, 0x300C] @ t @ [0x300D, 0x306B, 0x508D, 0x70B9, 0xFF3D] @ post)
         = pre @ fmt_Sprintf (ruby of') [t, strings_Repeat [0xFE45] (length t)] @ post"
proof -
  let ?L = "pre @ t @ [0xFF3B, 0xFF03, 0x300C] @ t @ [0x300D, 0x306B, 0x508D, 0x70B9, 0xFF3D] @ post"
  let ?ann = "[0xFF3B, 0xFF03, 0x300C] @ t @ [0x300D, 0x306B, 0x508D, 0x70B9, 0xFF3D]"
  have pt: "0xFF3B \<notin> set (pre @ t)"
    using assms(3,4) by simp
  have "find_all (fst bouten_exp) ((pre @ t) @ [0xFF3B, 0xFF03, 0x300C] @ t
          @ [0x300D, 0x306B, 0x508D, 0x70B9, 0xFF3D] @ post)
        = [[[0xFF3B, 0xFF03, 0x300C], t, [0x300D, 0x306B, 0x508D, 0x70B9, 0xFF3D]]]"
    unfolding bouten_exp_def fst_conv
    using pt assms(5,1,2) by (intro find_one_Lit_Plus_Lit) auto
  then have found: "FindAllStringSubmatch bouten_exp ?L = [[?ann, t]]"
    by (simp add: FindAllStringSubmatch_def submatches_def bouten_exp_def)
  have "strings_Replace (pre @ (t @ 0xFF3B # ([0xFF03, 0x300C] @ t
          @ [0x300D, 0x306B, 0x508D, 0x70B9, 0xFF3D])) @ post)
          (t @ 0xFF3B # ([0xFF03, 0x300C] @ t @ [0x300D, 0x306B, 0x508D, 0x70B9, 0xFF3D])) new
        = pre @ new @ post" for new
    using assms(3,4,5) by (rule Replace_in_context)
  then have rep: "strings_Replace ?L (t @ ?ann) new = pre @ new @ post" for new
    by simp
  have "bouten_pass of' ?L
        = strings_Replace ?L (t @ ?ann) (fmt_Sprintf (ruby of') [t, strings_Repeat [0xFE45] (length t)])"
    unfolding bouten_pass_def found by (simp add: Let_def)
  then show ?thesis
    unfolding rep .
qed

lemma plain_hdr_context:
  assumes "title \<noteq> []" "0x0A \<notin> set title" "0x0A \<notin> set pre" "0x0A \<notin> set post"
    and "0xFF3B \<notin> set (pre @ title @ post)"
  shows "replace_hdrs (pre @ [0x0A, 0x0A, 0x0A] @ title @ [0x0A, 0x0A, 0x0A] @ post) of'
         = (pre @ [0x0A] @ fmt_Sprintf (hdr of') [title] @ [0x0A] @ post, [])"
proof -
  let ?doc = "pre @ [0x0A, 0x0A, 0x0A] @ title @ [0x0A, 0x0A, 0x0A] @ post"
  have "0xFF3B \<notin> set ?doc"
    using assms(5) by simp
  then have "find_all (fst hdr_exp) ?doc = []"
    unfolding hdr_exp_def fst_conv by (intro needs_first_Lit [of "0xFF3B"]) simp_all
  then have none: "FindAllStringSubmatch hdr_exp ?doc = []"
    by (simp add: FindAllStringSubmatch_def)
  have "find_all (fst plain_hdr_exp) ?doc = [[[0x0A, 0x0A, 0x0A], title, [0x0A, 0x0A, 0x0A]]]"
    unfolding plain_hdr_exp_def fst_conv
    using assms(3,4,1,2) by (intro find_one_Lit_Plus_Lit) auto
  then have found: "FindAllStringSubmatch plain_hdr_exp ?doc
      = [[[0x0A, 0x0A, 0x0A] @ title @ [0x0A, 0x0A, 0x0A], title]]"
    by (simp add: FindAllStringSubmatch_def submatches_def plain_hdr_exp_def)
  have "strings_Replace (pre @ ([] @ 0x0A # ([0x0A, 0x0A] @ title @ [0x0A, 0x0A, 0x0A])) @ post)
          ([] @ 0x0A # ([0x0A, 0x0A] @ title @ [0x0A, 0x0A, 0x0A])) new
        = pre @ new @ post" for new
    using assms(3,4) by (intro Replace_in_context) simp_all
  then have rep: "strings_Replace ?doc ([0x0A, 0x0A, 0x0A] @ title @ [0x0A, 0x0A, 0x0A]) new
        = pre @ new @ post" for new
    by simp
  have "replace_hdrs ?doc of'
        = (strings_Replace ?doc ([0x0A, 0x0A, 0x0A] @ title @ [0x0A, 0x0A, 0x0A])
             ([0x0A] @ fmt_Sprintf (hdr of') [title] @ [0x0A]), [])"
    unfolding replace_hdrs_def none found by (simp add: Let_def)
  then show ?thesis
    unfolding rep by simp
qed

lemma page_break_context:
  assumes "0xFF3B \<notin> set pre" "0xFF3B \<notin> set post"
  shows "strings_Replace (pre @ [0xFF3B, 0xFF03, 0x6539, 0x30DA, 0x30FC, 0x30B8, 0xFF3D] @ post)
           [0xFF3B, 0xFF03, 0x6539, 0x30DA, 0x30FC, 0x30B8, 0xFF3D] new
         = pre @ new @ post"
  using Replace_in_context [of "0xFF3B" "[]" pre post "[0xFF03, 0x6539, 0x30DA, 0x30FC, 0x30B8, 0xFF3D]" new]
    assms by simp

lemma hdr_rounds:
  assumes "hdr of' = []" "shdr of' = []" "sshdr of' = []"
  shows "foldl (hdr_step of') (doc, lg) (FindAllStringSubmatch hdr_exp s)
         = (foldl (\<lambda>str m. strings_Replace str (m ! 0) (fmt_Sprintf [] [m ! 1] @ [0x0A]))
              doc (FindAllStringSubmatch hdr_exp s), lg)"
proof (rule foldl_logged)
  fix str lg' m
  assume "m \<in> set (FindAllStringSubmatch hdr_exp s)"
  from hdr_match_level [OF this]
  show "hdr_step of' (str, lg') m
        = (strings_Replace str (m ! 0) (fmt_Sprintf [] [m ! 1] @ [0x0A]), lg')"
    unfolding hdr_step_def using assms by auto
qed

text \<open>
  C9 as amended. For every format name other than tex, md and plain, \<open>get_outfmt\<close>
  returns the descriptor of five empty templates. No formatting operation fails, but
  ruby, emphasis and heading substitution are not no-ops: \<open>fmt.Sprintf\<close> with an empty
  template reports its operands as \<open>%!(EXTRA string=..., string=...)\<close>. On every line,
  each round of the ruby loop replaces the matched text by the report of base and
  reading, and each round of the emphasis loop replaces the text and its annotation by
  the report of the text and its dots. On every document, \<open>replace_hdrs\<close> logs nothing
  and replaces each heading block by the report of the title, followed by a newline for
  a structured heading and between two newlines for a heading found by the three
  newlines around it. A single ruby annotation, a single emphasis annotation and a
  single heading between three newlines are so replaced by the report, the text around
  them kept. The empty page-break template deletes the marker.
\<close>

theorem C9_unknown_format:
  assumes "f \<notin> {asc ''tex'', asc ''md'', asc ''plain''}"
  shows
    "get_outfmt f = \<lparr>ruby = [], hdr = [], shdr = [], sshdr = [], pb = []\<rparr>
     \<and> fmt_Sprintf (ruby (get_outfmt f)) [base, reading]
       = asc ''%!(EXTRA string='' @ base @ asc '', string='' @ reading @ asc '')''
     \<and> fmt_Sprintf (hdr (get_outfmt f)) [title] = asc ''%!(EXTRA string='' @ title @ asc '')''
     \<and> fmt_Sprintf (shdr (get_outfmt f)) [title] = asc ''%!(EXTRA string='' @ title @ asc '')''
     \<and> fmt_Sprintf (sshdr (get_outfmt f)) [title] = asc ''%!(EXTRA string='' @ title @ asc '')''
     \<and> ruby_pass (get_outfmt f) line
       = foldl (\<lambda>str m. strings_Replace str (m ! 0)
                  (asc ''%!(EXTRA string='' @ m ! 1 @ asc '', string='' @ m ! 2 @ asc '')''))
           line (FindAllStringSubmatch ruby_exp line)
     \<and> bouten_pass (get_outfmt f) line
       = foldl (\<lambda>str m. strings_Replace str (m ! 1 @ m ! 0)
                  (asc ''%!(EXTRA string='' @ m ! 1 @ asc '', string=''
                   @ strings_Repeat [0xFE45] (length (m ! 1)) @ asc '')''))
           line (FindAllStringSubmatch bouten_exp line)
     \<and> replace_ruby line (get_outfmt f)
       = bouten_pass (get_outfmt f) (ruby_pass (get_outfmt f) line)
     \<and> replace_hdrs doc (get_outfmt f)
       = (if FindAllStringSubmatch hdr_exp doc = []
          then foldl (\<lambda>str m. strings_Replace str (m ! 0)
                        ([0x0A] @ asc ''%!(EXTRA string='' @ m ! 1 @ asc '')'' @ [0x0A]))
                 doc (FindAllStringSubmatch plain_hdr_exp doc)
          else foldl (\<lambda>str m. strings_Replace str (m ! 0)
                        (asc ''%!(EXTRA string='' @ m ! 1 @ asc '')'' @ [0x0A]))
                 doc (FindAllStringSubmatch hdr_exp doc),
          [])
     \<and> (base \<noteq> [] \<and> (\<forall>c\<in>set base. kanji c) \<and> reading \<noteq> [] \<and> 0x300B \<notin> set reading
        \<and> 0x300A \<notin> set pre \<and> 0x300A \<notin> set post \<and> (bar = [] \<or> bar = [0xFF5C])
        \<and> (bar = [] \<longrightarrow> pre = [] \<or> \<not> kanji (last pre) \<and> last pre \<noteq> 0xFF5C) \<longrightarrow>
          ruby_pass (get_outfmt f) (pre @ bar @ base @ [0x300A] @ reading @ [0x300B] @ post)
          = pre @ asc ''%!(EXTRA string='' @ base @ asc '', string='' @ reading @ asc '')'' @ post)
     \<and> (t \<noteq> [] \<and> 0x300D \<notin> set t \<and> 0xFF3B \<notin> set t \<and> 0xFF3B \<notin> set pre \<and> 0xFF3B \<notin> set post \<longrightarrow>
          bouten_pass (get_outfmt f)
            (pre @ t @ [0xFF3B, 0xFF03, 0x300C] @ t @ [0x300D, 0x306B, 0x508D, 0x70B9, 0xFF3D] @ post)
          = pre @ asc ''%!(EXTRA string='' @ t @ asc '', string=''
            @ strings_Repeat [0xFE45] (length t) @ asc '')'' @ post)
     \<and> (title \<noteq> [] \<and> 0x0A \<notin> set title \<and> 0x0A \<notin> set pre \<and> 0x0A \<notin> set post
        \<and> 0xFF3B \<notin> set (pre @ title @ post) \<longrightarrow>
          replace_hdrs (pre @ [0x0A, 0x0A, 0x0A] @ title @ [0x0A, 0x0A, 0x0A] @ post) (get_outfmt f)
          = (pre @ [0x0A] @ asc ''%!(EXTRA string='' @ title @ asc '')'' @ [0x0A] @ post, []))
     \<and> strings_Replace out [0xFF3B, 0xFF03, 0x6539, 0x30DA, 0x30FC, 0x30B8, 0xFF3D] (pb (get_outfmt f))
       = strings_Replace out [0xFF3B, 0xFF03, 0x6539, 0x30DA, 0x30FC, 0x30B8, 0xFF3D] []
     \<and> (0xFF3B \<notin> set pre \<and> 0xFF3B \<notin> set post \<longrightarrow>
          strings_Replace (pre @ [0xFF3B, 0xFF03, 0x6539, 0x30DA, 0x30FC, 0x30B8, 0xFF3D] @ post)
            [0xFF3B, 0xFF03, 0x6539, 0x30DA, 0x30FC, 0x30B8, 0xFF3D] (pb (get_outfmt f))
          = pre @ post)"
proof -
  let ?o = "get_outfmt f"
  have empty: "?o = \<lparr>ruby = [], hdr = [], shdr = [], sshdr = [], pb = []\<rparr>"
    using assms by (simp add: get_outfmt_def)
  then have sel: "ruby ?o = []" "hdr ?o = []" "shdr ?o = []" "sshdr ?o = []" "pb ?o = []"
    by simp_all
  note two = Sprintf_empty_two and one = Sprintf_empty_one
  have c2: "fmt_Sprintf (ruby ?o) [base, reading]
       = asc ''%!(EXTRA string='' @ base @ asc '', string='' @ reading @ asc '')''"
    unfolding sel by (rule two)
  have c3: "fmt_Sprintf (hdr ?o) [title] = asc ''%!(EXTRA string='' @ title @ asc '')''"
    "fmt_Sprintf (shdr ?o) [title] = asc ''%!(EXTRA string='' @ title @ asc '')''"
    "fmt_Sprintf (sshdr ?o) [title] = asc ''%!(EXTRA string='' @ title @ asc '')''"
    unfolding sel by (rule one)+
  have c6: "ruby_pass ?o line
       = foldl (\<lambda>str m. strings_Replace str (m ! 0)
                  (asc ''%!(EXTRA string='' @ m ! 1 @ asc '', string='' @ m ! 2 @ asc '')''))
           line (FindAllStringSubmatch ruby_exp line)"
    unfolding ruby_pass_def sel two ..
  have c7: "bouten_pass ?o line
       = foldl (\<lambda>str m. strings_Replace str (m ! 1 @ m ! 0)
                  (asc ''%!(EXTRA string='' @ m ! 1 @ asc '', string=''
                   @ strings_Repeat [0xFE45] (length (m ! 1)) @ asc '')''))
           line (FindAllStringSubmatch bouten_exp line)"
    unfolding bouten_pass_def sel two Let_def ..
  have c8: "replace_ruby line ?o = bouten_pass ?o (ruby_pass ?o line)"
    by (simp add: replace_ruby_def)
  have c9: "replace_hdrs doc ?o
       = (if FindAllStringSubmatch hdr_exp doc = []
          then foldl (\<lambda>str m. strings_Replace str (m ! 0)
                        ([0x0A] @ asc ''%!(EXTRA string='' @ m ! 1 @ asc '')'' @ [0x0A]))
                 doc (FindAllStringSubmatch plain_hdr_exp doc)
          else foldl (\<lambda>str m. strings_Replace str (m ! 0)
                        (asc ''%!(EXTRA string='' @ m ! 1 @ asc '')'' @ [0x0A]))
                 doc (FindAllStringSubmatch hdr_exp doc),
          [])"
    unfolding replace_hdrs_def Let_def hdr_rounds [OF sel(2,3,4)] sel one by simp
  have c10: "ruby_pass ?o (pre @ bar @ base @ [0x300A] @ reading @ [0x300B] @ post)
          = pre @ asc ''%!(EXTRA string='' @ base @ asc '', string='' @ reading @ asc '')'' @ post"
    if "base \<noteq> [] \<and> (\<forall>c\<in>set base. kanji c) \<and> reading \<noteq> [] \<and> 0x300B \<notin> set reading
        \<and> 0x300A \<notin> set pre \<and> 0x300A \<notin> set post \<and> (bar = [] \<or> bar = [0xFF5C])
        \<and> (bar = [] \<longrightarrow> pre = [] \<or> \<not> kanji (last pre) \<and> last pre \<noteq> 0xFF5C)"
    using that ruby_pass_context [of base reading pre post bar ?o] unfolding sel two by simp
  have c11: "bouten_pass ?o
            (pre @ t @ [0xFF3B, 0xFF03, 0x300C] @ t @ [0x300D, 0x306B, 0x508D, 0x70B9, 0xFF3D] @ post)
          = pre @ asc ''%!(EXTRA string='' @ t @ asc '', string=''
            @ strings_Repeat [0xFE45] (length t) @ asc '')'' @ post"
    if "t \<noteq> [] \<and> 0x300D \<notin> set t \<and> 0xFF3B \<notin> set t \<and> 0xFF3B \<notin> set pre \<and> 0xFF3B \<notin> set post"
    using that bouten_pass_context [of t pre post ?o] unfolding sel two by simp
  have c12: "replace_hdrs (pre @ [0x0A, 0x0A, 0x0A] @ title @ [0x0A, 0x0A, 0x0A] @ post) ?o
          = (pre @ [0x0A] @ asc ''%!(EXTRA string='' @ title @ asc '')'' @ [0x0A] @ post, [])"
    if "title \<noteq> [] \<and> 0x0A \<notin> set title \<and> 0x0A \<notin> set pre \<and> 0x0A \<notin> set post
        \<and> 0xFF3B \<notin> set (pre @ title @ post)"
    using that plain_hdr_context [of title pre post ?o] unfolding sel one by simp
  have c13: "strings_Replace out [0xFF3B, 0xFF03, 0x6539, 0x30DA, 0x30FC, 0x30B8, 0xFF3D] (pb ?o)
       = strings_Replace out [0xFF3B, 0xFF03, 0x6539, 0x30DA, 0x30FC, 0x30B8, 0xFF3D] []"
    unfolding sel ..
  have c14: "strings_Replace (pre @ [0xFF3B, 0xFF03, 0x6539, 0x30DA, 0x30FC, 0x30B8, 0xFF3D] @ post)
            [0xFF3B, 0xFF03, 0x6539, 0x30DA, 0x30FC, 0x30B8, 0xFF3D] (pb ?o)
          = pre @ post"
    if "0xFF3B \<notin> set pre \<and> 0xFF3B \<notin> set post"
    using that page_break_context [of pre post "[]"] unfolding sel by simp
  from empty c2 c3 c6 c7 c8 c9 c10 c11 c12 c13 c14 show ?thesis
    by (intro conjI impI) blast+
qed

theorem C9_unknown_format_witness:
  "get_outfmt (asc ''html'') = \<lparr>ruby = [], hdr = [], shdr = [], sshdr = [], pb = []\<rparr>
   \<and> ruby_pass (get_outfmt (asc ''html''))
       (asc ''a'' @ [] @ [0x7D4C] @ [0x300A] @ [0x3051] @ [0x300B] @ asc ''b'')
     = asc ''a'' @ asc ''%!(EXTRA string='' @ [0x7D4C] @ asc '', string='' @ [0x3051] @ asc '')''
       @ asc ''b''
   \<and> bouten_pass (get_outfmt (asc ''html''))
       (asc ''a'' @ asc ''xy'' @ [0xFF3B, 0xFF03, 0x300C] @ asc ''xy''
        @ [0x300D, 0x306B, 0x508D, 0x70B9, 0xFF3D] @ asc ''b'')
     = asc ''a'' @ asc ''%!(EXTRA string='' @ asc ''xy'' @ asc '', string=''
       @ strings_Repeat [0xFE45] (length (asc ''xy'')) @ asc '')'' @ asc ''b''
   \<and> replace_hdrs (asc ''a'' @ [0x0A, 0x0A, 0x0A] @ asc ''Title'' @ [0x0A, 0x0A, 0x0A] @ asc ''b'')
       (get_outfmt (asc ''html''))
     = (asc ''a'' @ [0x0A] @ asc ''%!(EXTRA string='' @ asc ''Title'' @ asc '')'' @ [0x0A] @ asc ''b'',
        [])
   \<and> strings_Replace (asc ''a'' @ [0xFF3B, 0xFF03, 0x6539, 0x30DA, 0x30FC, 0x30B8, 0xFF3D] @ asc ''b'')
       [0xFF3B, 0xFF03, 0x6539, 0x30DA, 0x30FC, 0x30B8, 0xFF3D] (pb (get_outfmt (asc ''html'')))
     = asc ''a'' @ asc ''b''"
proof -
  have h: "asc ''html'' \<notin> {asc ''tex'', asc ''md'', asc ''plain''}"
    by (simp add: asc_def)
  have r: "[0x7D4C] \<noteq> ([] :: gostring) \<and> (\<forall>c\<in>set [0x7D4C]. kanji c)
        \<and> [0x3051] \<noteq> ([] :: gostring) \<and> 0x300B \<notin> set [0x3051 :: rune]
        \<and> 0x300A \<notin> set (asc ''a'') \<and> 0x300A \<notin> set (asc ''b'')
        \<and> (([] :: gostring) = [] \<or> ([] :: gostring) = [0xFF5C])
        \<and> (([] :: gostring) = [] \<longrightarrow>
             asc ''a'' = [] \<or> \<not> kanji (last (asc ''a'')) \<and> last (asc ''a'') \<noteq> 0xFF5C)"
    by (simp add: kanji_def asc_def)
  have e: "asc ''xy'' \<noteq> [] \<and> 0x300D \<notin> set (asc ''xy'') \<and> 0xFF3B \<notin> set (asc ''xy'')
        \<and> 0xFF3B \<notin> set (asc ''a'') \<and> 0xFF3B \<notin> set (asc ''b'')"
    by (simp add: asc_def)
  have t: "asc ''Title'' \<noteq> [] \<and> 0x0A \<notin> set (asc ''Title'') \<and> 0x0A \<notin> set (asc ''a'')
        \<and> 0x0A \<notin> set (asc ''b'') \<and> 0xFF3B \<notin> set (asc ''a'' @ asc ''Title'' @ asc ''b'')"
    by (simp add: asc_def)
  have p: "0xFF3B \<notin> set (asc ''a'') \<and> 0xFF3B \<notin> set (asc ''b'')"
    by (simp add: asc_def)
  show ?thesis
    using C9_unknown_format [OF h, where base = "[0x7D4C]" and reading = "[0x3051]"
        and pre = "asc ''a''" and post = "asc ''b''" and bar = "[]" and t = "asc ''xy''"
        and title = "asc ''Title''"] r e t p
    by blast
qed

text \<open>
  The claim as stated fails for the format name html and the line of C1: the ruby
  substitution does not leave the line as it was, and what it writes is the operand
  report of \<open>fmt.Sprintf\<close>.
\<close>

theorem C9_unknown_format_counterexample:
  "asc ''html'' \<notin> {asc ''tex'', asc ''md'', asc ''plain''}
   \<and> replace_ruby [0x7D4C, 0x6E08, 0x300A, 0x3051, 0x3044, 0x3056, 0x3044, 0x300B]
        (get_outfmt (asc ''html''))
     = asc ''%!(EXTRA string='' @ [0x7D4C, 0x6E08] @ asc '', string=''
       @ [0x3051, 0x3044, 0x3056, 0x3044] @ asc '')''
   \<and> replace_ruby [0x7D4C, 0x6E08, 0x300A, 0x3051, 0x3044, 0x3056, 0x3044, 0x300B]
        (get_outfmt (asc ''html''))
     \<noteq> [0x7D4C, 0x6E08, 0x300A, 0x3051, 0x3044, 0x3056, 0x3044, 0x300B]
   \<and> fst (replace_hdrs (asc ''a'' @ [0x0A, 0x0A, 0x0A] @ asc ''Title'' @ [0x0A, 0x0A, 0x0A] @ asc ''b'')
            (get_outfmt (asc ''html'')))
     = asc ''a'' @ [0x0A] @ asc ''%!(EXTRA string=Title)'' @ [0x0A] @ asc ''b''"
  by (simp add: get_outfmt_def replace_ruby_def ruby_pass_def bouten_pass_def ruby_exp_def
      bouten_exp_def replace_hdrs_def hdr_exp_def plain_hdr_exp_def
      FindAllStringSubmatch_def submatches_def push_def grow_def kanji_def
      strings_Replace_def extra_args_def asc_def)

subsection \<open>The lines of the file\<close>

lemma dropCR_newline: "0x0A \<notin> set l \<Longrightarrow> 0x0A \<notin> set (dropCR l)"
  by (auto simp: dropCR_def dest: in_set_butlastD)

lemma len_replicate_ascii: "c < 0x80 \<Longrightarrow> len (replicate n c) = n"
  by (induction n) (simp_all add: len_def utf8_RuneLen_def)

lemma takeWhile_line: "c \<notin> set l \<Longrightarrow> takeWhile (\<lambda>x. x \<noteq> c) (l @ c # rest) = l"
  by (induction l) auto

lemma takeWhile_last_line: "c \<notin> set l \<Longrightarrow> takeWhile (\<lambda>x. x \<noteq> c) l = l"
  by (induction l) auto

lemma Scanner_lines_line:
  assumes "0x0A \<notin> set l"
  shows "Scanner_lines (l @ 0x0A # rest)
         = (if 65535 < len l then ([], True)
            else (case Scanner_lines rest of (ls, too_long) \<Rightarrow> (dropCR l # ls, too_long)))"
proof -
  have tw: "takeWhile (\<lambda>x. x \<noteq> 0x0A) (l @ 0x0A # rest) = l"
    using assms by (rule takeWhile_line)
  obtain c s where cs: "l @ 0x0A # rest = c # s"
    by (cases l) auto
  have "Scanner_lines (c # s)
        = (let l = takeWhile (\<lambda>x. x \<noteq> 0x0A) (c # s)
           in if 65535 < len l then ([], True)
              else (case Scanner_lines (drop (length l + 1) (c # s)) of
                      (ls, too_long) \<Rightarrow> (dropCR l # ls, too_long)))"
    by (rule Scanner_lines.simps)
  then show ?thesis
    unfolding cs [symmetric] tw Let_def by simp
qed

lemma Scanner_lines_last:
  assumes "0x0A \<notin> set l" "l \<noteq> []"
  shows "Scanner_lines l = (if 65535 < len l then ([], True) else ([dropCR l], False))"
proof -
  have tw: "takeWhile (\<lambda>x. x \<noteq> 0x0A) l = l"
    using assms(1) by (rule takeWhile_last_line)
  obtain c s where cs: "l = c # s"
    using assms(2) by (cases l) auto
  have "Scanner_lines (c # s)
        = (let l = takeWhile (\<lambda>x. x \<noteq> 0x0A) (c # s)
           in if 65535 < len l then ([], True)
              else (case Scanner_lines (drop (length l + 1) (c # s)) of
                      (ls, too_long) \<Rightarrow> (dropCR l # ls, too_long)))"
    by (rule Scanner_lines.simps)
  then show ?thesis
    unfolding cs [symmetric] tw Let_def by simp
qed

text \<open>
  Every text is a last line without newline, or a line, its newline and the rest.
\<close>

lemma first_line:
  obtains "0x0A \<notin> set s"
  | l rest where "s = l @ 0x0A # rest" "0x0A \<notin> set l"
proof (cases "0x0A \<in> set s")
  case True
  then obtain l rest where "s = l @ 0x0A # rest" "0x0A \<notin> set l"
    by (auto dest: split_list_first)
  then show ?thesis by (rule that(2))
next
  case False
  then show ?thesis by (rule that(1))
qed

lemma Scanner_lines_complete:
  "snd (Scanner_lines content) = False \<Longrightarrow>
     \<exists>raw. fst (Scanner_lines content) = map dropCR raw
       \<and> (\<forall>l\<in>set raw. 0x0A \<notin> set l \<and> len l \<le> 65535)
       \<and> (content = concat (map (\<lambda>l. l @ [0x0A]) raw)
          \<or> content \<noteq> [] \<and> last content \<noteq> 0x0A
            \<and> content @ [0x0A] = concat (map (\<lambda>l. l @ [0x0A]) raw))"
proof (induction content rule: length_induct)
  case (1 content)
  show ?case
  proof (cases content rule: first_line)
    case 1
    show ?thesis
    proof (cases "content = []")
      case True
      then show ?thesis by (intro exI [of _ "[]"]) simp
    next
      case False
      from 1 False have sl: "Scanner_lines content
          = (if 65535 < len content then ([], True) else ([dropCR content], False))"
        by (rule Scanner_lines_last)
      with "1.prems" have short: "\<not> 65535 < len content"
        by (cases "65535 < len content") simp_all
      from False have "last content \<in> set content"
        by (rule last_in_set)
      with 1 have "last content \<noteq> 0x0A"
        by metis
      with sl short 1 False show ?thesis
        by (intro exI [of _ "[content]"]) simp
    qed
  next
    case (2 l rest)
    obtain ls e where r: "Scanner_lines rest = (ls, e)"
      by (cases "Scanner_lines rest")
    have sl: "Scanner_lines content
        = (if 65535 < len l then ([], True)
           else (case Scanner_lines rest of (ls, too_long) \<Rightarrow> (dropCR l # ls, too_long)))"
      unfolding 2(1) using 2(2) by (rule Scanner_lines_line)
    with "1.prems" have short: "\<not> 65535 < len l"
      by (cases "65535 < len l") simp_all
    with sl r have sc: "Scanner_lines content = (dropCR l # ls, e)"
      by simp
    with "1.prems" have e: "snd (Scanner_lines rest) = False"
      by (simp add: r)
    have "length rest < length content"
      unfolding 2(1) by simp
    from "1.IH" [rule_format, OF this e] obtain raw where raw:
      "fst (Scanner_lines rest) = map dropCR raw"
      "\<forall>l\<in>set raw. 0x0A \<notin> set l \<and> len l \<le> 65535"
      "rest = concat (map (\<lambda>l. l @ [0x0A]) raw)
       \<or> rest \<noteq> [] \<and> last rest \<noteq> 0x0A \<and> rest @ [0x0A] = concat (map (\<lambda>l. l @ [0x0A]) raw)"
      by blast
    have a: "fst (Scanner_lines content) = map dropCR (l # raw)"
      using sc raw(1) r by simp
    have b: "\<forall>l'\<in>set (l # raw). 0x0A \<notin> set l' \<and> len l' \<le> 65535"
      using raw(2) 2(2) short by simp
    have c: "content = concat (map (\<lambda>l. l @ [0x0A]) (l # raw))
       \<or> content \<noteq> [] \<and> last content \<noteq> 0x0A
         \<and> content @ [0x0A] = concat (map (\<lambda>l. l @ [0x0A]) (l # raw))"
      using raw(3)
    proof
      assume "rest = concat (map (\<lambda>l. l @ [0x0A]) raw)"
      then have "content = concat (map (\<lambda>l. l @ [0x0A]) (l # raw))"
        unfolding 2(1) by simp
      then show ?thesis ..
    next
      assume h: "rest \<noteq> [] \<and> last rest \<noteq> 0x0A \<and> rest @ [0x0A] = concat (map (\<lambda>l. l @ [0x0A]) raw)"
      then have "last content \<noteq> 0x0A"
        unfolding 2(1) by simp
      moreover have "content \<noteq> []"
        unfolding 2(1) by simp
      moreover from h have "content @ [0x0A] = concat (map (\<lambda>l. l @ [0x0A]) (l # raw))"
        unfolding 2(1) by simp
      ultimately show ?thesis by blast
    qed
    from a b c show ?thesis by blast
  qed
qed

lemma Scanner_lines_too_long:
  "snd (Scanner_lines content) = True \<Longrightarrow>
     \<exists>raw l rest. content = concat (map (\<lambda>l. l @ [0x0A]) raw) @ l @ rest
       \<and> (\<forall>l\<in>set raw. 0x0A \<notin> set l \<and> len l \<le> 65535)
       \<and> 0x0A \<notin> set l \<and> 65535 < len l \<and> (rest = [] \<or> hd rest = 0x0A)
       \<and> fst (Scanner_lines content) = map dropCR raw"
proof (induction content rule: length_induct)
  case (1 content)
  show ?case
  proof (cases content rule: first_line)
    case 1
    show ?thesis
    proof (cases "content = []")
      case True
      with "1.prems" show ?thesis by simp
    next
      case False
      from 1 False have sl: "Scanner_lines content
          = (if 65535 < len content then ([], True) else ([dropCR content], False))"
        by (rule Scanner_lines_last)
      with "1.prems" have long: "65535 < len content"
        by (cases "65535 < len content") simp_all
      with sl have "fst (Scanner_lines content) = map dropCR []"
        by simp
      with long 1 show ?thesis
        by (intro exI [of _ "[]"] exI [of _ content]) simp
    qed
  next
    case (2 l rest)
    have sl: "Scanner_lines content
        = (if 65535 < len l then ([], True)
           else (case Scanner_lines rest of (ls, too_long) \<Rightarrow> (dropCR l # ls, too_long)))"
      unfolding 2(1) using 2(2) by (rule Scanner_lines_line)
    show ?thesis
    proof (cases "65535 < len l")
      case True
      with sl have "fst (Scanner_lines content) = map dropCR []"
        by simp
      moreover have "content = concat (map (\<lambda>l. l @ [0x0A]) []) @ l @ (0x0A # rest)"
        unfolding 2(1) by simp
      ultimately show ?thesis
        using 2(2) True by (intro exI [of _ "[]"] exI [of _ l] exI [of _ "0x0A # rest"]) simp
    next
      case False
      obtain ls e where r: "Scanner_lines rest = (ls, e)"
        by (cases "Scanner_lines rest")
      from sl r False have sc: "Scanner_lines content = (dropCR l # ls, e)"
        by simp
      with "1.prems" have e: "snd (Scanner_lines rest) = True"
        by (simp add: r)
      have "length rest < length content"
        unfolding 2(1) by simp
      from "1.IH" [rule_format, OF this e] obtain raw l' rest' where raw:
        "rest = concat (map (\<lambda>l. l @ [0x0A]) raw) @ l' @ rest'"
        "\<forall>l\<in>set raw. 0x0A \<notin> set l \<and> len l \<le> 65535"
        "0x0A \<notin> set l'" "65535 < len l'" "rest' = [] \<or> hd rest' = 0x0A"
        "fst (Scanner_lines rest) = map dropCR raw"
        by blast
      have a: "content = concat (map (\<lambda>l. l @ [0x0A]) (l # raw)) @ l' @ rest'"
        unfolding 2(1) using raw(1) by simp
      have b: "\<forall>l'\<in>set (l # raw). 0x0A \<notin> set l' \<and> len l' \<le> 65535"
        using raw(2) 2(2) False by simp
      have c: "fst (Scanner_lines content) = map dropCR (l # raw)"
        using sc raw(6) r by simp
      from a b c raw(3,4,5) show ?thesis by blast
    qed
  qed
qed

lemma Scanner_lines_newline: "\<forall>t\<in>set (fst (Scanner_lines content)). 0x0A \<notin> set t"
proof (induction content rule: Scanner_lines.induct)
  case 1
  then show ?case by simp
next
  case (2 c s)
  let ?l = "takeWhile (\<lambda>x. x \<noteq> 0x0A) (c # s)"
  have "0x0A \<notin> set ?l"
    by (metis (mono_tags, lifting) set_takeWhileD)
  then have "0x0A \<notin> set (dropCR ?l)"
    by (rule dropCR_newline)
  with 2 show ?case
    by (auto simp: Let_def split: prod.splits if_splits simp del: takeWhile.simps)
qed

lemma joined_lines:
  assumes "texts \<noteq> []" "\<forall>t\<in>set texts. 0x0A \<notin> set t"
  shows "strings_Split (joined (get_outfmt f) ord texts) [0x0A]
      = blank_between (map (\<lambda>(n, t). fst (preprocess (get_outfmt f) (ord n) t)) (enumerate 0 texts))"
proof -
  let ?pre = "map (\<lambda>(n, t). fst (preprocess (get_outfmt f) (ord n) t)) (enumerate 0 texts)"
  have "\<forall>l\<in>set ?pre. 0x0A \<notin> set l"
  proof
    fix l
    assume "l \<in> set ?pre"
    then obtain n where "n < length texts" "l = fst (preprocess (get_outfmt f) (ord n) (texts ! n))"
      by (auto simp: in_set_enumerate_eq)
    moreover from this(1) assms(2) have "0x0A \<notin> set (texts ! n)"
      by simp
    ultimately show "0x0A \<notin> set l"
      by (simp add: preprocess_newline get_outfmt_ruby_newline)
  qed
  moreover have "?pre \<noteq> []"
    using assms(1) by (cases texts) simp_all
  ultimately have "splt (strings_Join ?pre [0x0A, 0x0A]) [0x0A] = blank_between ?pre"
    by (intro splt_Join)
  then show ?thesis by (simp add: strings_Split_def joined_def)
qed

lemma preprocess_plain_letter:
  "c \<in> {0x61, 0x62} \<Longrightarrow> preprocess (get_outfmt (asc ''plain'')) (\<lambda>i. []) [c] = ([c], [])"
  by (auto simp: preprocess_def strings_Trim_def replace_jis_def replace_ruby_def
        ruby_pass_def bouten_pass_def replace_accents_def FindAllStringSubmatch_def jis_exp_def
        ruby_exp_def bouten_exp_def accent_exp_def kanji_def push_def asc_def)

lemma preprocess_empty: "fst (preprocess of' ord []) = []"
  by (simp add: preprocess_def strings_Trim_def replace_jis_def replace_ruby_def ruby_pass_def
      bouten_pass_def replace_accents_def FindAllStringSubmatch_def)

lemma parse_stages:
  "snd (parse (Some content) of' debug ord)
   = trim_stage debug
       (strings_Replace (fst (replace_hdrs (joined of' ord (fst (Scanner_lines content))) of'))
          [0xFF3B, 0xFF03, 0x6539, 0x30DA, 0x30FC, 0x30B8, 0xFF3D] (pb of'))"
  by (simp add: parse_def Let_def split: prod.splits)

lemma Scanner_lines_second_too_long:
  assumes "65535 < n"
  shows "Scanner_lines (asc ''a'' @ [0x0A] @ replicate n 0x78 @ [0x0A] @ rest) = ([asc ''a''], True)"
proof -
  have long: "Scanner_lines (replicate n 0x78 @ 0x0A # rest) = ([], True)"
    using assms by (subst Scanner_lines_line) (simp_all add: len_replicate_ascii)
  have "Scanner_lines ([0x61] @ 0x0A # replicate n 0x78 @ 0x0A # rest) = ([[0x61]], True)"
    by (subst Scanner_lines_line) (simp_all add: long len_def utf8_RuneLen_def dropCR_def)
  then show ?thesis
    by (simp add: asc_def)
qed

text \<open>
  C10. \<open>parse\<close> joins the preprocessed lines that the scanner delivers with two newlines
  and hands the result to heading restructuring, page-break replacement and trimming, in
  this order. The delivered lines hold no newline, and for every format name the joined
  document, split at its newlines, is the list of their preprocessed lines with exactly
  one empty line between neighbours; an empty line between two lines gives a run of four
  newlines. When the scan does not end with \<open>ErrTooLong\<close>, the delivered lines are the
  lines of the file, each without its newline and one carriage return before it. But
  the scan ends at the first line of more than 65535 bytes, that line and all lines
  after it are not delivered, and \<open>parse\<close> goes on with the lines before it: for the
  file of the three lines a, 70000 times x, and b, only a is delivered, and \<open>parse\<close>
  with the plain format and without trimming returns a.
\<close>

theorem C10_parse_drops_long_lines:
  "(snd (Scanner_lines content) = False \<longrightarrow>
      (\<exists>raw. fst (Scanner_lines content) = map dropCR raw
         \<and> (\<forall>l\<in>set raw. 0x0A \<notin> set l \<and> len l \<le> 65535)
         \<and> (content = concat (map (\<lambda>l. l @ [0x0A]) raw)
            \<or> content \<noteq> [] \<and> last content \<noteq> 0x0A
              \<and> content @ [0x0A] = concat (map (\<lambda>l. l @ [0x0A]) raw))))
   \<and> (snd (Scanner_lines content) = True \<longrightarrow>
      (\<exists>raw l rest. content = concat (map (\<lambda>l. l @ [0x0A]) raw) @ l @ rest
         \<and> (\<forall>l\<in>set raw. 0x0A \<notin> set l \<and> len l \<le> 65535)
         \<and> 0x0A \<notin> set l \<and> 65535 < len l \<and> (rest = [] \<or> hd rest = 0x0A)
         \<and> fst (Scanner_lines content) = map dropCR raw))
   \<and> (fst (Scanner_lines content) \<noteq> [] \<longrightarrow>
      strings_Split (joined (get_outfmt f) ord (fst (Scanner_lines content))) [0x0A]
      = blank_between (map (\<lambda>(n, t). fst (preprocess (get_outfmt f) (ord n) t))
          (enumerate 0 (fst (Scanner_lines content)))))
   \<and> joined of' ord [a, [], b]
      = fst (preprocess of' (ord 0) a) @ [0x0A, 0x0A, 0x0A, 0x0A] @ fst (preprocess of' (ord 2) b)
   \<and> snd (parse (Some content) of' debug ord)
      = trim_stage debug
          (strings_Replace (fst (replace_hdrs (joined of' ord (fst (Scanner_lines content))) of'))
             [0xFF3B, 0xFF03, 0x6539, 0x30DA, 0x30FC, 0x30B8, 0xFF3D] (pb of'))
   \<and> Scanner_lines (asc ''a'' @ [0x0A] @ replicate 70000 0x78 @ [0x0A] @ asc ''b'' @ [0x0A])
      = ([asc ''a''], True)
   \<and> snd (parse (Some (asc ''a'' @ [0x0A] @ replicate 70000 0x78 @ [0x0A] @ asc ''b'' @ [0x0A]))
           (get_outfmt (asc ''plain'')) True (\<lambda>n i. []))
      = Inr (asc ''a'')"
proof -
  let ?file = "asc ''a'' @ [0x0A] @ replicate 70000 0x78 @ [0x0A] @ asc ''b'' @ [0x0A]"
  note one = Scanner_lines_complete [of content]
  note two = Scanner_lines_too_long [of content]
  have three: "strings_Split (joined (get_outfmt f) ord (fst (Scanner_lines content))) [0x0A]
      = blank_between (map (\<lambda>(n, t). fst (preprocess (get_outfmt f) (ord n) t))
          (enumerate 0 (fst (Scanner_lines content))))"
    if "fst (Scanner_lines content) \<noteq> []"
    using that Scanner_lines_newline by (rule joined_lines)
  have four: "joined of' ord [a, [], b]
      = fst (preprocess of' (ord 0) a) @ [0x0A, 0x0A, 0x0A, 0x0A] @ fst (preprocess of' (ord 2) b)"
    using preprocess_empty [of of' "ord 1"]
    by (simp add: joined_def enumerate_eq_zip upt_rec numeral_2_eq_2 numeral_3_eq_3)
  note five = parse_stages [of content of' debug ord]
  have six: "Scanner_lines ?file = ([asc ''a''], True)"
    by (rule Scanner_lines_second_too_long) simp
  have "joined (get_outfmt (asc ''plain'')) (\<lambda>n i. []) [asc ''a''] = asc ''a''"
    using preprocess_plain_letter [of "0x61"] by (simp add: joined_def asc_def)
  moreover have "replace_hdrs (asc ''a'') of' = (asc ''a'', [])" for of'
    by (simp add: replace_hdrs_def FindAllStringSubmatch_def hdr_exp_def plain_hdr_exp_def asc_def)
  moreover have "strings_Replace (asc ''a'') [0xFF3B, 0xFF03, 0x6539, 0x30DA, 0x30FC, 0x30B8, 0xFF3D] new
      = asc ''a''" for new
    by (simp add: strings_Replace_def asc_def)
  ultimately have seven: "snd (parse (Some ?file) (get_outfmt (asc ''plain'')) True (\<lambda>n i. []))
      = Inr (asc ''a'')"
    unfolding parse_stages six fst_conv by (simp add: trim_stage_def)
  from one two three four five six seven show ?thesis
    by (intro conjI impI) blast+
qed

theorem C10_parse_drops_long_lines_witness:
  "Scanner_lines (asc ''a'' @ [0x0A, 0x0A] @ asc ''b'' @ [0x0A]) = ([asc ''a'', [], asc ''b''], False)
   \<and> strings_Split
       (joined (get_outfmt (asc ''plain'')) (\<lambda>n i. [])
          (fst (Scanner_lines (asc ''a'' @ [0x0A, 0x0A] @ asc ''b'' @ [0x0A])))) [0x0A]
     = [asc ''a'', [], [], [], asc ''b'']
   \<and> joined (get_outfmt (asc ''plain'')) (\<lambda>n i. []) [asc ''a'', [], asc ''b'']
     = asc ''a'' @ [0x0A, 0x0A, 0x0A, 0x0A] @ asc ''b''"
proof -
  let ?file = "asc ''a'' @ [0x0A, 0x0A] @ asc ''b'' @ [0x0A]"
  have sc: "Scanner_lines ?file = ([asc ''a'', [], asc ''b''], False)"
    by (simp add: asc_def len_def utf8_RuneLen_def dropCR_def)
  then have h: "fst (Scanner_lines ?file) \<noteq> []"
    by simp
  have pre: "fst (preprocess (get_outfmt (asc ''plain'')) (\<lambda>i. []) (asc ''a'')) = asc ''a''"
    "fst (preprocess (get_outfmt (asc ''plain'')) (\<lambda>i. []) []) = []"
    "fst (preprocess (get_outfmt (asc ''plain'')) (\<lambda>i. []) (asc ''b'')) = asc ''b''"
    using preprocess_plain_letter [of "0x61"] preprocess_plain_letter [of "0x62"]
    by (simp_all add: preprocess_empty asc_def)
  have en: "enumerate 0 [asc ''a'', [], asc ''b''] = [(0, asc ''a''), (1, []), (2, asc ''b'')]"
    by (simp add: enumerate_eq_zip upt_rec numeral_2_eq_2 numeral_3_eq_3)
  note t = C10_parse_drops_long_lines [of ?file "asc ''plain''" "\<lambda>n i. []"
      "get_outfmt (asc ''plain'')" "asc ''a''" "asc ''b''"]
  from t h have
    "strings_Split (joined (get_outfmt (asc ''plain'')) (\<lambda>n i. []) (fst (Scanner_lines ?file)))
       [0x0A]
     = blank_between (map (\<lambda>(n, t). fst (preprocess (get_outfmt (asc ''plain'')) (\<lambda>i. []) t))
         (enumerate 0 (fst (Scanner_lines ?file))))"
    by blast
  then have a:
    "strings_Split (joined (get_outfmt (asc ''plain'')) (\<lambda>n i. []) (fst (Scanner_lines ?file)))
       [0x0A]
     = [asc ''a'', [], [], [], asc ''b'']"
    unfolding sc fst_conv en by (simp add: pre)
  from t have
    "joined (get_outfmt (asc ''plain'')) (\<lambda>n i. []) [asc ''a'', [], asc ''b'']
     = fst (preprocess (get_outfmt (asc ''plain'')) (\<lambda>i. []) (asc ''a''))
       @ [0x0A, 0x0A, 0x0A, 0x0A]
       @ fst (preprocess (get_outfmt (asc ''plain'')) (\<lambda>i. []) (asc ''b''))"
    by blast
  then have b: "joined (get_outfmt (asc ''plain'')) (\<lambda>n i. []) [asc ''a'', [], asc ''b'']
     = asc ''a'' @ [0x0A, 0x0A, 0x0A, 0x0A] @ asc ''b''"
    by (simp add: pre)
  from sc a b show ?thesis by blast
qed

end
